theory Spec2Isabelle
  imports Main "HOL-Library.AList"
begin

section \<open>The document tree\<close>

text \<open>
  The plugin \<^verbatim>\<open>rehypeCopyButton\<close> of the build configuration works on a hast tree. Its
  nodes are plain objects; the plugin reads the fields \<^verbatim>\<open>type\<close>, \<^verbatim>\<open>tagName\<close>,
  \<^verbatim>\<open>value\<close> and \<^verbatim>\<open>children\<close> and writes \<^verbatim>\<open>properties\<close> of the nodes it creates.
  A field that an object does not have reads as \<^verbatim>\<open>undefined\<close>: it is \<open>None\<close> here
  (\<open>node_value\<close> is the field \<^verbatim>\<open>value\<close>).
  The plugin itself builds elements without a \<^verbatim>\<open>children\<close> field (\<^verbatim>\<open>rect\<close>,
  \<^verbatim>\<open>path\<close>, \<^verbatim>\<open>polyline\<close>), so the field is optional for elements too.

  Property values are never inspected by the plugin. The ones it writes are strings and
  lists of strings; \<open>PUndefined\<close> is the value of a property that was written from an
  undefined expression.
\<close>

datatype property = PStr string | PList "string list" | PUndefined

datatype node = Node
  (type: string)
  (tagName: "string option")
  (properties: "(string \<times> property) list option")
  (node_value: "string option")
  (children: "node list option")

text \<open>\<^verbatim>\<open>x.type === 'element' && x.tagName === tag\<close>\<close>

definition is_element :: "node \<Rightarrow> string \<Rightarrow> bool" where
  "is_element x tag = (type x = ''element'' \<and> tagName x = Some tag)"

section \<open>Text extraction\<close>

text \<open>
  \<^verbatim>\<open>Array.prototype.join('')\<close> on the results of the recursive calls: an
  \<^verbatim>\<open>undefined\<close> entry contributes the empty string.
\<close>

definition join :: "string option list \<Rightarrow> string" where
  "join xs = concat (map (\<lambda>x. case x of None \<Rightarrow> [] | Some s \<Rightarrow> s) xs)"

text \<open>
  \<^verbatim>\<open>
  function extractTextFromNode(node: any): string {
      if (node.type === 'text') { return node.value; }
      if (node.children) { return node.children.map(extractTextFromNode).join(''); }
      return '';
  }
  \<close>
  The result is \<open>None\<close> when the function returns \<^verbatim>\<open>undefined\<close> (a text node with no
  \<^verbatim>\<open>value\<close>). An array is truthy even when empty.
\<close>

fun extractTextFromNode :: "node \<Rightarrow> string option" where
  "extractTextFromNode (Node ty tg pr v ch) =
     (if ty = ''text'' then v
      else case ch of
        Some cs \<Rightarrow> Some (join (map extractTextFromNode cs))
      | None \<Rightarrow> Some [])"

section \<open>The synthesized nodes\<close>

text \<open>An element with properties and no \<^verbatim>\<open>children\<close> field.\<close>

definition leaf_element :: "string \<Rightarrow> (string \<times> property) list \<Rightarrow> node" where
  "leaf_element tag props = Node ''element'' (Some tag) (Some props) None None"

definition element :: "string \<Rightarrow> (string \<times> property) list \<Rightarrow> node list \<Rightarrow> node" where
  "element tag props cs = Node ''element'' (Some tag) (Some props) None (Some cs)"

definition svg_properties :: "string list \<Rightarrow> (string \<times> property) list" where
  "svg_properties classes =
     [(''className'', PList classes),
      (''width'', PStr ''16''),
      (''height'', PStr ''16''),
      (''viewBox'', PStr ''0 0 24 24''),
      (''fill'', PStr ''none''),
      (''stroke'', PStr ''currentColor''),
      (''strokeWidth'', PStr ''2''),
      (''strokeLinecap'', PStr ''round''),
      (''strokeLinejoin'', PStr ''round'')]"

definition copy_icon :: node where
  "copy_icon = element ''svg'' (svg_properties [''copy-icon''])
     [leaf_element ''rect''
        [(''width'', PStr ''14''), (''height'', PStr ''14''), (''x'', PStr ''8''),
         (''y'', PStr ''8''), (''rx'', PStr ''2''), (''ry'', PStr ''2'')],
      leaf_element ''path''
        [(''d'', PStr ''m4 16c-1.1 0-2-.9-2-2V4c0-1.1.9-2 2-2h10c1.1 0 2 .9 2 2'')]]"

definition check_icon :: node where
  "check_icon = element ''svg'' (svg_properties [''check-icon'', ''hidden''])
     [leaf_element ''polyline'' [(''points'', PStr ''20,6 9,17 4,12'')]]"

text \<open>The object literal \<^verbatim>\<open>copyButton\<close>, as a function of \<^verbatim>\<open>codeText\<close>.\<close>

definition copyButton :: "string option \<Rightarrow> node" where
  "copyButton codeText = element ''button''
     [(''className'', PList [''copy-code-button'']),
      (''data-code'', (case codeText of Some s \<Rightarrow> PStr s | None \<Rightarrow> PUndefined)),
      (''title'', PStr ''Copy code'')]
     [copy_icon, check_icon]"

text \<open>The object literal \<^verbatim>\<open>container\<close>, with \<^verbatim>\<open>children: [node, copyButton]\<close>.\<close>

definition container :: "node \<Rightarrow> node \<Rightarrow> node" where
  "container x button = element ''div''
     [(''className'', PList [''code-block-container'', ''group''])]
     [x, button]"

section \<open>The traversal\<close>

text \<open>
  \<^verbatim>\<open>node.children?.find((child) => child.type === 'element' && child.tagName === 'code')\<close>:
  the first matching child, \<open>None\<close> (\<^verbatim>\<open>undefined\<close>) when there is none or when the node has
  no \<^verbatim>\<open>children\<close>.
\<close>

definition codeElement :: "node \<Rightarrow> node option" where
  "codeElement x =
     (case children x of
        None \<Rightarrow> None
      | Some cs \<Rightarrow> find (\<lambda>child. is_element child ''code'') cs)"

text \<open>The two nested tests under which \<^verbatim>\<open>visit\<close> returns a container (line 112).\<close>

definition code_block :: "node \<Rightarrow> node option" where
  "code_block x = (if is_element x ''pre'' then codeElement x else None)"

text \<open>
  \<^verbatim>\<open>visit\<close> mutates its argument (\<^verbatim>\<open>node.children = node.children.map(visit)\<close>) and
  returns a node. The model returns both: the first component is the argument object as
  the call leaves it, the second is the returned value. On the early return the argument
  is not written to and the returned value is the new container, which holds the
  argument as its first child. Otherwise the returned value is the argument itself,
  with its children replaced by the values that \<^verbatim>\<open>visit\<close> returned for them.
\<close>

fun visit :: "node \<Rightarrow> node \<times> node" where
  "visit (Node ty tg pr v ch) =
     (let node = Node ty tg pr v ch in
      case code_block node of
        Some ce \<Rightarrow> (node, container node (copyButton (extractTextFromNode ce)))
      | None \<Rightarrow>
          (case ch of
             Some cs \<Rightarrow>
               (let node' = Node ty tg pr v (Some (map (\<lambda>c. snd (visit c)) cs))
                in (node', node'))
           | None \<Rightarrow> (node, node)))"

text \<open>
  The transformer \<^verbatim>\<open>(tree) => { ...; visit(tree); }\<close> drops the value that \<^verbatim>\<open>visit\<close>
  returns and returns nothing itself, so the pipeline goes on with the tree object it
  passed in, as \<^verbatim>\<open>visit\<close> left it.
\<close>

definition rehypeCopyButton :: "node \<Rightarrow> node" where
  "rehypeCopyButton tree = fst (visit tree)"

section \<open>Positions in a tree\<close>

text \<open>
  The node at a path of child indices, \<open>None\<close> when the path leaves the tree.
\<close>

fun subtree :: "node \<Rightarrow> nat list \<Rightarrow> node option" where
  "subtree x [] = Some x"
| "subtree x (i # p) =
     (case children x of
        None \<Rightarrow> None
      | Some cs \<Rightarrow> if i < length cs then subtree (cs ! i) p else None)"

text \<open>
  The nodes on the way from the root of \<open>x\<close> to the node at a path, the root first and
  the node at the path itself left out: its ancestors.
\<close>

fun ancestors :: "node \<Rightarrow> nat list \<Rightarrow> node list" where
  "ancestors x [] = []"
| "ancestors x (i # p) =
     x # (case children x of
            None \<Rightarrow> []
          | Some cs \<Rightarrow> if i < length cs then ancestors (cs ! i) p else [])"

text \<open>All nodes of a tree, in document order.\<close>

fun nodes :: "node \<Rightarrow> node list" where
  "nodes (Node ty tg pr v ch) =
     Node ty tg pr v ch # (case ch of Some cs \<Rightarrow> concat (map nodes cs) | None \<Rightarrow> [])"

text \<open>The node \<open>x\<close> after the assignment \<^verbatim>\<open>x.children = cs\<close>.\<close>

definition with_children :: "node \<Rightarrow> node list \<Rightarrow> node" where
  "with_children x cs = Node (type x) (tagName x) (properties x) (node_value x) (Some cs)"


text \<open>
  What the specification calls the leaf text payloads under a node, in document order:
  the payloads of the text nodes met when descending through the children of the nodes
  that are not text nodes.
\<close>

fun text_payloads :: "node \<Rightarrow> string list" where
  "text_payloads (Node ty tg pr v ch) =
     (if ty = ''text'' then (case v of Some s \<Rightarrow> [s] | None \<Rightarrow> [])
      else case ch of
        Some cs \<Rightarrow> concat (map text_payloads cs)
      | None \<Rightarrow> [])"

text \<open>Example trees.\<close>

definition text_node :: "string \<Rightarrow> node" where
  "text_node s = Node ''text'' None None (Some s) None"

definition elem :: "string \<Rightarrow> node list \<Rightarrow> node" where
  "elem tag cs = Node ''element'' (Some tag) (Some []) None (Some cs)"

definition root :: "node list \<Rightarrow> node" where
  "root cs = Node ''root'' None None None (Some cs)"

definition highlighted_code :: node where
  "highlighted_code = elem ''code'' [text_node ''const '', elem ''span'' [text_node ''x''], text_node '' = 1;'']"

definition nested_blocks :: node where
  "nested_blocks =
     root [elem ''pre'' [elem ''code'' [text_node ''a''], elem ''pre'' [elem ''code'' [text_node ''b'']]]]"

definition quoted_block :: node where
  "quoted_block =
     root [elem ''blockquote''
             [elem ''p'' [text_node ''see''],
              elem ''pre'' [elem ''code'' [elem ''span'' [text_node ''x''], text_node '' = 1'']],
              elem ''pre'' [elem ''code'' []]]]"

definition plain_document :: node where
  "plain_document =
     root [elem ''h1'' [text_node ''Title''],
           elem ''p'' [text_node ''Use '', elem ''code'' [text_node ''it''], text_node ''.'']]"

definition single_block :: node where
  "single_block = root [elem ''pre'' [elem ''code'' [text_node ''a'']]]"

definition buried_pre :: node where
  "buried_pre =
     root [elem ''pre''
             [elem ''code'' [text_node ''a''],
              elem ''pre'' [text_node ''plain'', elem ''pre'' [elem ''code'' [text_node ''b'']]]]]"

lemmas example_defs = root_def elem_def text_node_def element_def leaf_element_def
  container_def copyButton_def code_block_def codeElement_def is_element_def

section \<open>The calls of the traversal\<close>

text \<open>
  \<^verbatim>\<open>visit\<close> once more, with a log of its calls: the same tests and the same results, and
  beside them the list of the calls made, in the order in which they start. A call is
  recorded as the position of its argument, a path of child indices counted from the
  node the outermost call was made on, and the argument itself. The calls made below the
  \<open>i\<close>-th child are the calls of \<^verbatim>\<open>visit(child)\<close> with \<open>i\<close> in front of their
  positions. \<open>visit_traced_children\<close> is \<^verbatim>\<open>node.children.map(visit)\<close>, from index \<open>i\<close> on.
\<close>

fun visit_traced :: "node \<Rightarrow> (node \<times> node) \<times> (nat list \<times> node) list"
and visit_traced_children :: "nat \<Rightarrow> node list \<Rightarrow> node list \<times> (nat list \<times> node) list" where
  "visit_traced (Node ty tg pr v ch) =
     (let node = Node ty tg pr v ch in
      case code_block node of
        Some ce \<Rightarrow> ((node, container node (copyButton (extractTextFromNode ce))), [([], node)])
      | None \<Rightarrow>
          (case ch of
             Some cs \<Rightarrow>
               (let (rs, calls) = visit_traced_children 0 cs;
                    node' = Node ty tg pr v (Some rs)
                in ((node', node'), ([], node) # calls))
           | None \<Rightarrow> ((node, node), [([], node)])))"
| "visit_traced_children i [] = ([], [])"
| "visit_traced_children i (c # cs) =
     (let (r, calls) = visit_traced c;
          (rs, calls') = visit_traced_children (Suc i) cs
      in (snd r # rs, map (\<lambda>(p, x). (i # p, x)) calls @ calls'))"

definition calls :: "node \<Rightarrow> (nat list \<times> node) list" where
  "calls x = snd (visit_traced x)"

definition calls_children :: "nat \<Rightarrow> node list \<Rightarrow> (nat list \<times> node) list" where
  "calls_children i cs = snd (visit_traced_children i cs)"

section \<open>The plugin on arbitrary values\<close>

text \<open>
  The source gives every node the type \<^verbatim>\<open>any\<close>: nothing in it checks that a child is a
  node at all. To see what the plugin does with a tree that is not well formed, the same
  code is read once more over plain JavaScript values: \<^verbatim>\<open>undefined\<close>, \<^verbatim>\<open>null\<close>, strings,
  arrays, and plain objects, given as the list of their own properties in insertion
  order (no getters, no functions, the prototype \<^verbatim>\<open>Object.prototype\<close>). An exception is
  the value \<open>Inl TypeError\<close>. The source has no \<^verbatim>\<open>try\<close>, so an exception thrown in a
  call ends every call around it; the state in which an aborted run leaves the tree is
  not part of the model.
\<close>

datatype jsval = Undefined | Null | Str string | Arr "jsval list" | Obj "(string \<times> jsval) list"

datatype error = TypeError

text \<open>
  Reading one of the properties \<^verbatim>\<open>type\<close>, \<^verbatim>\<open>tagName\<close>, \<^verbatim>\<open>value\<close>, \<^verbatim>\<open>children\<close>: it throws
  on \<^verbatim>\<open>undefined\<close> and \<^verbatim>\<open>null\<close>, and strings and arrays have no property of these names.
\<close>

fun get :: "jsval \<Rightarrow> string \<Rightarrow> error + jsval" where
  "get Undefined k = Inl TypeError"
| "get Null k = Inl TypeError"
| "get (Str s) k = Inr Undefined"
| "get (Arr xs) k = Inr Undefined"
| "get (Obj kvs) k = Inr (case map_of kvs k of Some v \<Rightarrow> v | None \<Rightarrow> Undefined)"

text \<open>The test of \<^verbatim>\<open>if (v)\<close>.\<close>

fun truthy :: "jsval \<Rightarrow> bool" where
  "truthy Undefined = False"
| "truthy Null = False"
| "truthy (Str s) = (s \<noteq> [])"
| "truthy (Arr xs) = True"
| "truthy (Obj kvs) = True"

text \<open>
  The assignment \<^verbatim>\<open>x.k = v\<close> on an object: an existing property keeps its place. The
  plugin assigns only to \<^verbatim>\<open>children\<close> of a value whose \<^verbatim>\<open>children\<close> is truthy, which is
  an object.
\<close>

fun set_field :: "jsval \<Rightarrow> string \<Rightarrow> jsval \<Rightarrow> jsval" where
  "set_field (Obj kvs) k v = Obj (AList.update k v kvs)"
| "set_field x k v = x"

text \<open>
  The results of the calls that \<^verbatim>\<open>Array.prototype.map\<close> makes, from left to right: the
  first exception ends the loop.
\<close>

fun sequence :: "(error + 'a) list \<Rightarrow> error + 'a list" where
  "sequence [] = Inr []"
| "sequence (r # rs) =
     (case r of
        Inl e \<Rightarrow> Inl e
      | Inr x \<Rightarrow> (case sequence rs of Inl e \<Rightarrow> Inl e | Inr xs \<Rightarrow> Inr (x # xs)))"

fun intercalate :: "string \<Rightarrow> string list \<Rightarrow> string" where
  "intercalate sep [] = []"
| "intercalate sep [s] = s"
| "intercalate sep (s # t # ss) = s @ sep @ intercalate sep (t # ss)"

text \<open>
  \<^verbatim>\<open>ToString\<close>, as \<^verbatim>\<open>Array.prototype.join\<close> applies it to the entries that are neither
  \<^verbatim>\<open>undefined\<close> nor \<^verbatim>\<open>null\<close>. An array is joined with commas. A plain object gives
  \<^verbatim>\<open>[object Object]\<close>, unless it has an own property \<^verbatim>\<open>toString\<close>: that is no function
  here, \<^verbatim>\<open>Object.prototype.valueOf\<close> returns the object, and the conversion throws.
\<close>

fun to_string :: "jsval \<Rightarrow> error + string" where
  "to_string Undefined = Inr ''undefined''"
| "to_string Null = Inr ''null''"
| "to_string (Str s) = Inr s"
| "to_string (Arr xs) =
     (case sequence (map (\<lambda>x. if x = Undefined \<or> x = Null then Inr [] else to_string x) xs) of
        Inl e \<Rightarrow> Inl e
      | Inr ss \<Rightarrow> Inr (intercalate '','' ss))"
| "to_string (Obj kvs) =
     (if ''toString'' \<in> fst ` set kvs then Inl TypeError else Inr ''[object Object]'')"

text \<open>\<^verbatim>\<open>xs.join(sep)\<close>\<close>

definition join_js :: "string \<Rightarrow> jsval list \<Rightarrow> error + string" where
  "join_js sep xs =
     (case sequence (map (\<lambda>x. if x = Undefined \<or> x = Null then Inr [] else to_string x) xs) of
        Inl e \<Rightarrow> Inl e
      | Inr ss \<Rightarrow> Inr (intercalate sep ss))"

text \<open>\<^verbatim>\<open>x.type === 'element' && x.tagName === tag\<close>\<close>

definition is_element_js :: "jsval \<Rightarrow> string \<Rightarrow> error + bool" where
  "is_element_js x tag =
     (case get x ''type'' of
        Inl e \<Rightarrow> Inl e
      | Inr t \<Rightarrow>
          if t = Str ''element''
          then (case get x ''tagName'' of Inl e \<Rightarrow> Inl e | Inr g \<Rightarrow> Inr (g = Str tag))
          else Inr False)"

text \<open>\<^verbatim>\<open>xs.find(P)\<close>: the first entry on which the callback returns true, else \<^verbatim>\<open>undefined\<close>.\<close>

fun find_js :: "(jsval \<Rightarrow> error + bool) \<Rightarrow> jsval list \<Rightarrow> error + jsval" where
  "find_js P [] = Inr Undefined"
| "find_js P (x # xs) =
     (case P x of
        Inl e \<Rightarrow> Inl e
      | Inr b \<Rightarrow> if b then Inr x else find_js P xs)"

text \<open>
  \<^verbatim>\<open>node.children?.find(...)\<close>: the optional chain stops at \<^verbatim>\<open>undefined\<close> and \<^verbatim>\<open>null\<close> only;
  a string or an object has no function \<^verbatim>\<open>find\<close>, and calling it throws.
\<close>

definition codeElement_js :: "jsval \<Rightarrow> error + jsval" where
  "codeElement_js x =
     (case get x ''children'' of
        Inl e \<Rightarrow> Inl e
      | Inr Undefined \<Rightarrow> Inr Undefined
      | Inr Null \<Rightarrow> Inr Undefined
      | Inr (Arr cs) \<Rightarrow> find_js (\<lambda>child. is_element_js child ''code'') cs
      | Inr _ \<Rightarrow> Inl TypeError)"

lemma size_map_of: "map_of kvs k = Some v \<Longrightarrow> size v < size (Obj kvs)"
  by (induction kvs) (auto split: if_splits)

lemma size_get: "get x k = Inr (Arr cs) \<Longrightarrow> c \<in> set cs \<Longrightarrow> size c < size x"
proof (cases x)
  case (Obj kvs)
  assume "get x k = Inr (Arr cs)" "c \<in> set cs"
  with Obj have "map_of kvs k = Some (Arr cs)" by (auto split: option.splits)
  from size_map_of [OF this] have "size (Arr cs) < size x" using Obj by simp
  moreover from \<open>c \<in> set cs\<close> have "size c < size (Arr cs)"
    by (induction cs) auto
  ultimately show ?thesis by simp
qed auto

text \<open>\<^verbatim>\<open>extractTextFromNode\<close> (lines 127 to 135), on arbitrary values.\<close>

function extractTextFromNode_js :: "jsval \<Rightarrow> error + jsval" where
  "extractTextFromNode_js x =
     (case get x ''type'' of
        Inl e \<Rightarrow> Inl e
      | Inr t \<Rightarrow>
          if t = Str ''text'' then get x ''value''
          else (case get x ''children'' of
                  Inl e \<Rightarrow> Inl e
                | Inr ch \<Rightarrow>
                    if truthy ch
                    then (case ch of
                            Arr cs \<Rightarrow>
                              (case sequence (map extractTextFromNode_js cs) of
                                 Inl e \<Rightarrow> Inl e
                               | Inr vs \<Rightarrow>
                                   (case join_js [] vs of Inl e \<Rightarrow> Inl e | Inr s \<Rightarrow> Inr (Str s)))
                          | _ \<Rightarrow> Inl TypeError)
                    else Inr (Str [])))"
  by pat_completeness auto
termination
  by (relation "measure size") (auto dest: size_get)

text \<open>The object literals of lines 29 to 109.\<close>

definition element_js :: "string \<Rightarrow> (string \<times> jsval) list \<Rightarrow> jsval list \<Rightarrow> jsval" where
  "element_js tag props cs =
     Obj [(''type'', Str ''element''), (''tagName'', Str tag), (''properties'', Obj props),
          (''children'', Arr cs)]"

definition leaf_element_js :: "string \<Rightarrow> (string \<times> jsval) list \<Rightarrow> jsval" where
  "leaf_element_js tag props =
     Obj [(''type'', Str ''element''), (''tagName'', Str tag), (''properties'', Obj props)]"

definition svg_properties_js :: "string list \<Rightarrow> (string \<times> jsval) list" where
  "svg_properties_js classes =
     [(''className'', Arr (map Str classes)),
      (''width'', Str ''16''),
      (''height'', Str ''16''),
      (''viewBox'', Str ''0 0 24 24''),
      (''fill'', Str ''none''),
      (''stroke'', Str ''currentColor''),
      (''strokeWidth'', Str ''2''),
      (''strokeLinecap'', Str ''round''),
      (''strokeLinejoin'', Str ''round'')]"

definition copy_icon_js :: jsval where
  "copy_icon_js = element_js ''svg'' (svg_properties_js [''copy-icon''])
     [leaf_element_js ''rect''
        [(''width'', Str ''14''), (''height'', Str ''14''), (''x'', Str ''8''),
         (''y'', Str ''8''), (''rx'', Str ''2''), (''ry'', Str ''2'')],
      leaf_element_js ''path''
        [(''d'', Str ''m4 16c-1.1 0-2-.9-2-2V4c0-1.1.9-2 2-2h10c1.1 0 2 .9 2 2'')]]"

definition check_icon_js :: jsval where
  "check_icon_js = element_js ''svg'' (svg_properties_js [''check-icon'', ''hidden''])
     [leaf_element_js ''polyline'' [(''points'', Str ''20,6 9,17 4,12'')]]"

definition copyButton_js :: "jsval \<Rightarrow> jsval" where
  "copyButton_js codeText = element_js ''button''
     [(''className'', Arr [Str ''copy-code-button'']),
      (''data-code'', codeText),
      (''title'', Str ''Copy code'')]
     [copy_icon_js, check_icon_js]"

definition container_js :: "jsval \<Rightarrow> jsval \<Rightarrow> jsval" where
  "container_js x button = element_js ''div''
     [(''className'', Arr [Str ''code-block-container'', Str ''group''])]
     [x, button]"

text \<open>
  \<^verbatim>\<open>visit\<close> (lines 17 to 121), on arbitrary values. As in \<open>visit\<close>, a result is the
  argument as the call leaves it and the value returned. \<^verbatim>\<open>codeElement\<close> is looked for
  only under the test for \<^verbatim>\<open>pre\<close>; a child that was found is an object, which is truthy.
\<close>

function visit_js :: "jsval \<Rightarrow> error + jsval \<times> jsval" where
  "visit_js node =
     (case is_element_js node ''pre'' of
        Inl e \<Rightarrow> Inl e
      | Inr pre \<Rightarrow>
          (case (if pre then codeElement_js node else Inr Undefined) of
             Inl e \<Rightarrow> Inl e
           | Inr ce \<Rightarrow>
               if truthy ce
               then (case extractTextFromNode_js ce of
                       Inl e \<Rightarrow> Inl e
                     | Inr codeText \<Rightarrow> Inr (node, container_js node (copyButton_js codeText)))
               else (case get node ''children'' of
                       Inl e \<Rightarrow> Inl e
                     | Inr ch \<Rightarrow>
                         if truthy ch
                         then (case ch of
                                 Arr cs \<Rightarrow>
                                   (case sequence (map visit_js cs) of
                                      Inl e \<Rightarrow> Inl e
                                    | Inr rs \<Rightarrow>
                                        (let node' = set_field node ''children'' (Arr (map snd rs))
                                         in Inr (node', node')))
                               | _ \<Rightarrow> Inl TypeError)
                         else Inr (node, node))))"
  by pat_completeness auto
termination
  by (relation "measure size") (auto dest: size_get)

text \<open>The transformer: the tree as \<^verbatim>\<open>visit(tree)\<close> leaves it, or the exception.\<close>

definition rehypeCopyButton_js :: "jsval \<Rightarrow> error + jsval" where
  "rehypeCopyButton_js tree =
     (case visit_js tree of Inl e \<Rightarrow> Inl e | Inr (tree', r) \<Rightarrow> Inr tree')"

text \<open>Positions and ancestors, as for nodes.\<close>

fun subtree_js :: "jsval \<Rightarrow> nat list \<Rightarrow> jsval option" where
  "subtree_js x [] = Some x"
| "subtree_js x (i # p) =
     (case get x ''children'' of
        Inr (Arr cs) \<Rightarrow> if i < length cs then subtree_js (cs ! i) p else None
      | _ \<Rightarrow> None)"

fun ancestors_js :: "jsval \<Rightarrow> nat list \<Rightarrow> jsval list" where
  "ancestors_js x [] = []"
| "ancestors_js x (i # p) =
     x # (case get x ''children'' of
            Inr (Arr cs) \<Rightarrow> if i < length cs then ancestors_js (cs ! i) p else []
          | _ \<Rightarrow> [])"

text \<open>
  A node of the document tree as the object it stands for, with its fields in the order
  \<^verbatim>\<open>type\<close>, \<^verbatim>\<open>tagName\<close>, \<^verbatim>\<open>properties\<close>, \<^verbatim>\<open>value\<close>, \<^verbatim>\<open>children\<close>.
\<close>

fun embed_property :: "property \<Rightarrow> jsval" where
  "embed_property (PStr s) = Str s"
| "embed_property (PList ss) = Arr (map Str ss)"
| "embed_property PUndefined = Undefined"

definition field :: "string \<Rightarrow> jsval option \<Rightarrow> (string \<times> jsval) list" where
  "field k v = (case v of None \<Rightarrow> [] | Some w \<Rightarrow> [(k, w)])"

fun embed :: "node \<Rightarrow> jsval" where
  "embed (Node ty tg pr v ch) =
     Obj ((''type'', Str ty) #
          field ''tagName'' (map_option Str tg) @
          field ''properties'' (map_option (\<lambda>ps. Obj (map (\<lambda>(k, p). (k, embed_property p)) ps)) pr) @
          field ''value'' (map_option Str v) @
          field ''children'' (map_option (\<lambda>cs. Arr (map embed cs)) ch))"

definition embed_text :: "string option \<Rightarrow> jsval" where
  "embed_text t = (case t of None \<Rightarrow> Undefined | Some s \<Rightarrow> Str s)"

definition embed_node :: "node option \<Rightarrow> jsval" where
  "embed_node n = (case n of None \<Rightarrow> Undefined | Some x \<Rightarrow> embed x)"

text \<open>Example values.\<close>

definition text_js :: "string \<Rightarrow> jsval" where
  "text_js s = Obj [(''type'', Str ''text''), (''value'', Str s)]"

definition elem_js :: "string \<Rightarrow> jsval list \<Rightarrow> jsval" where
  "elem_js tag cs = element_js tag [] cs"

definition root_js :: "jsval list \<Rightarrow> jsval" where
  "root_js cs = Obj [(''type'', Str ''root''), (''children'', Arr cs)]"

definition custom_js :: "jsval list \<Rightarrow> jsval" where
  "custom_js cs = Obj [(''type'', Str ''custom''), (''children'', Arr cs)]"

lemmas js_defs = root_js_def custom_js_def elem_js_def text_js_def element_js_def
  leaf_element_js_def container_js_def copyButton_js_def is_element_js_def codeElement_js_def
  join_js_def

section \<open>Properties of text extraction\<close>

lemma join_Some: "join (map Some xs) = concat xs"
  by (simp add: join_def comp_def)

lemma extract_not_text:
  "type x \<noteq> ''text'' \<Longrightarrow>
   extractTextFromNode x = Some (join (map extractTextFromNode (case children x of Some cs \<Rightarrow> cs | None \<Rightarrow> [])))"
  by (cases x) (simp add: join_def split: option.splits)

lemma join_payloads:
  "(\<And>c. c \<in> set cs \<Longrightarrow> (case extractTextFromNode c of Some s \<Rightarrow> s | None \<Rightarrow> []) = concat (text_payloads c))
   \<Longrightarrow> join (map extractTextFromNode cs) = concat (concat (map text_payloads cs))"
  by (induction cs) (simp_all add: join_def)

lemma extract_payloads:
  "(case extractTextFromNode x of Some s \<Rightarrow> s | None \<Rightarrow> []) = concat (text_payloads x)"
proof (induction x rule: extractTextFromNode.induct)
  case (1 ty tg pr v ch)
  show ?case
  proof (cases "ty = ''text''")
    case True
    then show ?thesis by (simp split: option.splits)
  next
    case False
    show ?thesis
    proof (cases ch)
      case None
      with False show ?thesis by simp
    next
      case (Some cs)
      with False 1 have "join (map extractTextFromNode cs) = concat (concat (map text_payloads cs))"
        by (intro join_payloads) simp
      with False Some show ?thesis by simp
    qed
  qed
qed

lemma extract_element_payloads:
  "type x \<noteq> ''text'' \<Longrightarrow> extractTextFromNode x = Some (concat (text_payloads x))"
  using extract_payloads [of x] extract_not_text [of x] by simp

text \<open>
  C2. For a text node the extraction is the node's payload; for an element node it is
  the concatenation of the extractions of its children, in order; so it is the
  concatenation of the text payloads under the node, with all element markup gone.
  For \<^verbatim>\<open>code["const ", span["x"], " = 1;"]\<close> it is \<^verbatim>\<open>"const x = 1;"\<close>.
\<close>

theorem extractTextFromNode_spec:
  "(type x = ''text'' \<longrightarrow> extractTextFromNode x = node_value x) \<and>
   (type x = ''element'' \<longrightarrow>
      extractTextFromNode x =
        Some (join (map extractTextFromNode (case children x of Some cs \<Rightarrow> cs | None \<Rightarrow> []))) \<and>
      extractTextFromNode x = Some (concat (text_payloads x))) \<and>
   extractTextFromNode highlighted_code = Some ''const x = 1;''"
proof (intro conjI impI)
  show "extractTextFromNode x = node_value x" if "type x = ''text''"
    using that by (cases x) simp
  show "extractTextFromNode x =
      Some (join (map extractTextFromNode (case children x of Some cs \<Rightarrow> cs | None \<Rightarrow> [])))"
    if "type x = ''element''"
    using that by (intro extract_not_text) simp
  show "extractTextFromNode x = Some (concat (text_payloads x))" if "type x = ''element''"
    using that by (intro extract_element_payloads) simp
  show "extractTextFromNode highlighted_code = Some ''const x = 1;''"
    by (simp add: highlighted_code_def elem_def text_node_def join_def)
qed

theorem extractTextFromNode_spec_witness:
  "type (text_node ''abc'') = ''text'' \<and> extractTextFromNode (text_node ''abc'') = Some ''abc'' \<and>
   type (elem ''span'' [text_node ''a'', elem ''b'' [text_node ''c''], text_node ''d'']) = ''element'' \<and>
   extractTextFromNode (elem ''span'' [text_node ''a'', elem ''b'' [text_node ''c''], text_node ''d'']) = Some ''acd'' \<and>
   text_payloads (elem ''span'' [text_node ''a'', elem ''b'' [text_node ''c''], text_node ''d'']) = [''a'', ''c'', ''d'']"
  using extractTextFromNode_spec [of "text_node ''abc''"]
    extractTextFromNode_spec [of "elem ''span'' [text_node ''a'', elem ''b'' [text_node ''c''], text_node ''d'']"]
  by (simp add: text_node_def elem_def)

section \<open>Properties of the traversal\<close>

declare visit.simps [simp del]

lemma visit_wrap:
  "code_block x = Some ce \<Longrightarrow>
   visit x = (x, container x (copyButton (extractTextFromNode ce)))"
  by (cases x) (simp add: visit.simps Let_def)

lemma visit_leaf:
  "code_block x = None \<Longrightarrow> children x = None \<Longrightarrow> visit x = (x, x)"
  by (cases x) (simp add: visit.simps Let_def)

lemma visit_descend:
  "code_block x = None \<Longrightarrow> children x = Some cs \<Longrightarrow>
   visit x = (with_children x (map (\<lambda>c. snd (visit c)) cs),
              with_children x (map (\<lambda>c. snd (visit c)) cs))"
  by (cases x) (simp add: visit.simps with_children_def Let_def)

lemma fst_visit: "fst (visit x) = (if code_block x = None then snd (visit x) else x)"
  by (cases "code_block x"; cases "children x") (auto simp: visit_wrap visit_leaf visit_descend)

lemma code_block_element:
  "code_block x = Some ce \<Longrightarrow>
   is_element x ''pre'' \<and> is_element ce ''code'' \<and> (\<exists>cs. children x = Some cs \<and> ce \<in> set cs)"
  by (auto simp: code_block_def codeElement_def find_Some_iff split: if_splits option.splits)

lemma code_block_text:
  "code_block x = Some ce \<Longrightarrow> extractTextFromNode ce = Some (concat (text_payloads ce))"
  by (rule extract_element_payloads) (auto dest: code_block_element simp: is_element_def)

lemma subtree_append:
  "subtree x (p @ q) = (case subtree x p of Some y \<Rightarrow> subtree y q | None \<Rightarrow> None)"
  by (induction p arbitrary: x) (auto split: option.splits)

text \<open>
  The value returned for a node that the traversal reaches stands, in the returned tree,
  where the node stood.
\<close>

lemma subtree_visit:
  "subtree x p = Some y \<Longrightarrow> \<forall>a \<in> set (ancestors x p). code_block a = None \<Longrightarrow>
   subtree (snd (visit x)) p = Some (snd (visit y))"
proof (induction p arbitrary: x)
  case Nil
  then show ?case by simp
next
  case (Cons i p)
  from Cons.prems obtain cs where
    cs: "children x = Some cs" "i < length cs" "subtree (cs ! i) p = Some y"
    by (auto split: option.splits if_splits)
  from Cons.prems cs have x: "code_block x = None"
    and anc: "\<forall>a \<in> set (ancestors (cs ! i) p). code_block a = None"
    by auto
  from Cons.IH [OF cs(3) anc] cs x show ?case
    by (simp add: visit_descend with_children_def)
qed

lemma visit_identity:
  "\<forall>n \<in> set (nodes x). code_block n = None \<Longrightarrow> visit x = (x, x)"
proof (induction x rule: nodes.induct)
  case (1 ty tg pr v ch)
  have x: "code_block (Node ty tg pr v ch) = None" using 1(2) by simp
  show ?case
  proof (cases ch)
    case None
    with x show ?thesis by (simp add: visit_leaf)
  next
    case (Some cs)
    have "map (\<lambda>c. snd (visit c)) cs = cs"
    proof (rule map_idI)
      fix c assume c: "c \<in> set cs"
      with 1(2) Some have "\<forall>n \<in> set (nodes c). code_block n = None" by auto
      with 1(1) [OF Some c] show "snd (visit c) = c" by simp
    qed
    with x Some show ?thesis by (simp add: visit_descend with_children_def)
  qed
qed

text \<open>
  C5. A tree with no element node tagged \<^verbatim>\<open>pre\<close> comes out of the injector as it went
  in: nothing is added anywhere.
\<close>

theorem no_pre_unchanged:
  assumes "\<forall>n \<in> set (nodes tree). \<not> is_element n ''pre''"
  shows "rehypeCopyButton tree = tree"
proof -
  from assms have "\<forall>n \<in> set (nodes tree). code_block n = None"
    by (simp add: code_block_def)
  then show ?thesis
    by (simp add: rehypeCopyButton_def visit_identity)
qed

theorem no_pre_unchanged_witness:
  "list_all (\<lambda>n. \<not> is_element n ''pre'') (nodes plain_document) \<and>
   rehypeCopyButton plain_document = plain_document"
proof -
  have h: "\<forall>n \<in> set (nodes plain_document). \<not> is_element n ''pre''"
    by (simp add: plain_document_def example_defs)
  from h no_pre_unchanged [OF h] show ?thesis
    by (simp add: list_all_iff)
qed

text \<open>
  C10. When the root passed to the injector is itself a \<^verbatim>\<open>pre\<close> element with a
  \<^verbatim>\<open>code\<close> child, \<^verbatim>\<open>visit\<close> returns a container for it, the transformer drops that
  value, and the tree is left as it was.
\<close>

theorem root_block_not_wrapped:
  assumes "is_element tree ''pre''" and "codeElement tree = Some ce"
  shows "rehypeCopyButton tree = tree \<and>
         snd (visit tree) = container tree (copyButton (extractTextFromNode ce))"
  using assms by (simp add: rehypeCopyButton_def visit_wrap code_block_def)

theorem root_block_not_wrapped_witness:
  "is_element (elem ''pre'' [elem ''code'' [text_node ''a'']]) ''pre'' \<and>
   codeElement (elem ''pre'' [elem ''code'' [text_node ''a'']]) = Some (elem ''code'' [text_node ''a'']) \<and>
   rehypeCopyButton (elem ''pre'' [elem ''code'' [text_node ''a'']]) =
     elem ''pre'' [elem ''code'' [text_node ''a'']] \<and>
   snd (visit (elem ''pre'' [elem ''code'' [text_node ''a'']])) =
     container (elem ''pre'' [elem ''code'' [text_node ''a'']]) (copyButton (Some ''a''))"
proof -
  have h1: "is_element (elem ''pre'' [elem ''code'' [text_node ''a'']]) ''pre''"
    by (simp add: example_defs)
  have h2: "codeElement (elem ''pre'' [elem ''code'' [text_node ''a'']]) =
      Some (elem ''code'' [text_node ''a''])"
    by (simp add: example_defs)
  have "extractTextFromNode (elem ''code'' [text_node ''a'']) = Some ''a''"
    by (simp add: example_defs join_def)
  with h1 h2 root_block_not_wrapped [OF h1 h2] show ?thesis
    by simp
qed

text \<open>
  C1, as stated, fails in two places. In \<^verbatim>\<open>root[pre[code["a"], pre[code["b"]]]]\<close> the
  inner block is a \<^verbatim>\<open>pre\<close> with a \<^verbatim>\<open>code\<close> child, and the run wraps the outer block
  only: \<^verbatim>\<open>visit\<close> returns at the outer block and never enters it. And a block that is
  the root of the tree is not wrapped.
\<close>

theorem every_code_block_wrapped_counterexample:
  "subtree nested_blocks [0, 1] = Some (elem ''pre'' [elem ''code'' [text_node ''b'']]) \<and>
   is_element (elem ''pre'' [elem ''code'' [text_node ''b'']]) ''pre'' \<and>
   codeElement (elem ''pre'' [elem ''code'' [text_node ''b'']]) = Some (elem ''code'' [text_node ''b'']) \<and>
   rehypeCopyButton nested_blocks =
     root [container
             (elem ''pre'' [elem ''code'' [text_node ''a''], elem ''pre'' [elem ''code'' [text_node ''b'']]])
             (copyButton (Some ''a''))] \<and>
   subtree (rehypeCopyButton nested_blocks) [0, 0, 1] =
     Some (elem ''pre'' [elem ''code'' [text_node ''b'']]) \<and>
   rehypeCopyButton (elem ''pre'' [elem ''code'' [text_node ''b'']]) =
     elem ''pre'' [elem ''code'' [text_node ''b'']]"
  by (simp add: nested_blocks_def rehypeCopyButton_def visit.simps Let_def example_defs join_def)

text \<open>
  C1, amended. Take a \<^verbatim>\<open>pre\<close> element with a \<^verbatim>\<open>code\<close> child that is not the root and
  has no ancestor that is itself a \<^verbatim>\<open>pre\<close> element with a \<^verbatim>\<open>code\<close> child. After one run
  the container stands where the block stood; its first child is the block, unchanged,
  and its second child is the copy control, whose \<^verbatim>\<open>data-code\<close> is the concatenation of
  the text payloads under the first \<^verbatim>\<open>code\<close> child, in document order (the empty string
  when there are none).
\<close>

theorem code_block_wrapped:
  assumes "subtree tree p = Some x" and "p \<noteq> []"
    and "is_element x ''pre''" and "codeElement x = Some ce"
    and "\<forall>a \<in> set (ancestors tree p). code_block a = None"
  shows "subtree (rehypeCopyButton tree) p =
           Some (container x (copyButton (Some (concat (text_payloads ce))))) \<and>
         subtree (rehypeCopyButton tree) (p @ [0]) = Some x \<and>
         subtree (rehypeCopyButton tree) (p @ [1]) =
           Some (copyButton (Some (concat (text_payloads ce)))) \<and>
         properties (copyButton (Some (concat (text_payloads ce)))) =
           Some [(''className'', PList [''copy-code-button'']),
                 (''data-code'', PStr (concat (text_payloads ce))),
                 (''title'', PStr ''Copy code'')]"
proof -
  from assms(2) obtain i q where p: "p = i # q" by (cases p) auto
  with assms(5) have "code_block tree = None" by simp
  then have r: "rehypeCopyButton tree = snd (visit tree)"
    by (simp add: rehypeCopyButton_def fst_visit)
  from assms(3,4) have cb: "code_block x = Some ce" by (simp add: code_block_def)
  have "subtree (rehypeCopyButton tree) p = Some (snd (visit x))"
    unfolding r using assms(1,5) by (rule subtree_visit)
  with cb have at: "subtree (rehypeCopyButton tree) p =
      Some (container x (copyButton (Some (concat (text_payloads ce)))))"
    by (simp add: visit_wrap code_block_text)
  then show ?thesis
    by (simp add: subtree_append container_def element_def copyButton_def)
qed

theorem code_block_wrapped_witness:
  "subtree quoted_block [0, 1] =
     Some (elem ''pre'' [elem ''code'' [elem ''span'' [text_node ''x''], text_node '' = 1'']]) \<and>
   subtree (rehypeCopyButton quoted_block) [0, 1] =
     Some (container (elem ''pre'' [elem ''code'' [elem ''span'' [text_node ''x''], text_node '' = 1'']])
             (copyButton (Some ''x = 1''))) \<and>
   subtree quoted_block [0, 2] = Some (elem ''pre'' [elem ''code'' []]) \<and>
   subtree (rehypeCopyButton quoted_block) [0, 2] =
     Some (container (elem ''pre'' [elem ''code'' []]) (copyButton (Some '''')))"
proof -
  let ?pre1 = "elem ''pre'' [elem ''code'' [elem ''span'' [text_node ''x''], text_node '' = 1'']]"
  let ?pre2 = "elem ''pre'' [elem ''code'' []]"
  have a1: "subtree quoted_block [0, 1] = Some ?pre1"
    by (simp add: quoted_block_def example_defs)
  have a2: "subtree quoted_block [0, 2] = Some ?pre2"
    by (simp add: quoted_block_def example_defs)
  have e1: "is_element ?pre1 ''pre''" and e2: "is_element ?pre2 ''pre''"
    by (simp_all add: example_defs)
  have c1: "codeElement ?pre1 = Some (elem ''code'' [elem ''span'' [text_node ''x''], text_node '' = 1''])"
    by (simp add: example_defs)
  have c2: "codeElement ?pre2 = Some (elem ''code'' [])"
    by (simp add: example_defs)
  have n1: "\<forall>a \<in> set (ancestors quoted_block [0, 1]). code_block a = None"
    by (simp add: quoted_block_def example_defs)
  have n2: "\<forall>a \<in> set (ancestors quoted_block [0, 2]). code_block a = None"
    by (simp add: quoted_block_def example_defs)
  have t1: "text_payloads (elem ''code'' [elem ''span'' [text_node ''x''], text_node '' = 1'']) =
      [''x'', '' = 1'']"
    by (simp add: example_defs)
  have t2: "text_payloads (elem ''code'' []) = []"
    by (simp add: example_defs)
  from code_block_wrapped [OF a1 _ e1 c1 n1] code_block_wrapped [OF a2 _ e2 c2 n2] a1 a2 t1 t2
  show ?thesis by simp
qed

text \<open>
  C8. A copy control made by the injector is a \<^verbatim>\<open>button\<close> element whose properties are
  the class \<^verbatim>\<open>copy-code-button\<close>, the extracted text itself as the string \<^verbatim>\<open>data-code\<close>,
  and the label \<^verbatim>\<open>title = "Copy code"\<close>. A container made by the injector is a \<^verbatim>\<open>div\<close>
  element with the classes \<^verbatim>\<open>code-block-container\<close> and \<^verbatim>\<open>group\<close>, whose children are
  the block and the control. These are the nodes that \<^verbatim>\<open>visit\<close> returns for a block.
\<close>

theorem synthesized_markers:
  "type (copyButton codeText) = ''element'' \<and>
   tagName (copyButton codeText) = Some ''button'' \<and>
   properties (copyButton (Some s)) =
     Some [(''className'', PList [''copy-code-button'']),
           (''data-code'', PStr s),
           (''title'', PStr ''Copy code'')] \<and>
   type (container x button) = ''element'' \<and>
   tagName (container x button) = Some ''div'' \<and>
   properties (container x button) =
     Some [(''className'', PList [''code-block-container'', ''group''])] \<and>
   children (container x button) = Some [x, button] \<and>
   (code_block x = Some ce \<longrightarrow>
      snd (visit x) = container x (copyButton (Some (concat (text_payloads ce)))))"
  by (simp add: copyButton_def container_def element_def visit_wrap code_block_text)

theorem synthesized_markers_witness:
  "code_block (elem ''pre'' [elem ''code'' [text_node ''a'']]) = Some (elem ''code'' [text_node ''a'']) \<and>
   snd (visit (elem ''pre'' [elem ''code'' [text_node ''a'']])) =
     container (elem ''pre'' [elem ''code'' [text_node ''a'']]) (copyButton (Some ''a'')) \<and>
   properties (copyButton (Some ''a'')) =
     Some [(''className'', PList [''copy-code-button'']),
           (''data-code'', PStr ''a''),
           (''title'', PStr ''Copy code'')]"
proof -
  have h: "code_block (elem ''pre'' [elem ''code'' [text_node ''a'']]) = Some (elem ''code'' [text_node ''a''])"
    by (simp add: example_defs)
  have t: "text_payloads (elem ''code'' [text_node ''a'']) = [''a'']"
    by (simp add: example_defs)
  from synthesized_markers [of None "''a''" "elem ''pre'' [elem ''code'' [text_node ''a'']]" "copyButton None"
      "elem ''code'' [text_node ''a'']"] h t
  show ?thesis by simp
qed

section \<open>A second run\<close>

lemma visit_copyButton: "visit (copyButton s) = (copyButton s, copyButton s)"
  by (rule visit_identity)
    (simp add: copyButton_def copy_icon_def check_icon_def element_def leaf_element_def
      code_block_def is_element_def)

lemma code_block_container: "code_block (container x b) = None"
  by (simp add: container_def element_def code_block_def is_element_def)

lemma visit_container:
  "visit (container x b) = (container (snd (visit x)) (snd (visit b)), container (snd (visit x)) (snd (visit b)))"
proof -
  have "children (container x b) = Some [x, b]"
    by (simp add: container_def element_def)
  from visit_descend [OF code_block_container this] show ?thesis
    by (simp add: with_children_def container_def element_def)
qed

lemma is_code_visit: "is_element (snd (visit c)) ''code'' = is_element c ''code''"
proof (cases "code_block c")
  case None
  then show ?thesis
    by (cases "children c") (simp_all add: visit_leaf visit_descend with_children_def is_element_def)
next
  case (Some ce)
  then have "is_element c ''pre''" by (simp add: code_block_def split: if_splits)
  with Some show ?thesis
    by (simp add: visit_wrap container_def element_def is_element_def)
qed

lemma code_block_visit:
  assumes "code_block x = None"
  shows "code_block (snd (visit x)) = None"
proof (cases "children x")
  case None
  with assms show ?thesis by (simp add: visit_leaf)
next
  case (Some cs)
  show ?thesis
  proof (cases "is_element x ''pre''")
    case False
    with assms Some show ?thesis
      by (auto simp: visit_descend with_children_def code_block_def is_element_def)
  next
    case True
    with assms Some have "find (\<lambda>c. is_element c ''code'') cs = None"
      by (simp add: code_block_def codeElement_def)
    then have "find (\<lambda>c. is_element c ''code'') (map (\<lambda>c. snd (visit c)) cs) = None"
      by (simp add: find_None_iff is_code_visit)
    with assms Some True show ?thesis
      by (simp add: visit_descend with_children_def code_block_def codeElement_def is_element_def)
  qed
qed

lemma ancestors_visit:
  "subtree x p = Some y \<Longrightarrow> \<forall>a \<in> set (ancestors x p). code_block a = None \<Longrightarrow>
   \<forall>a \<in> set (ancestors (snd (visit x)) p). code_block a = None"
proof (induction p arbitrary: x)
  case Nil
  then show ?case by simp
next
  case (Cons i p)
  from Cons.prems obtain cs where
    cs: "children x = Some cs" "i < length cs" "subtree (cs ! i) p = Some y"
    by (auto split: option.splits if_splits)
  from Cons.prems cs have x: "code_block x = None"
    and anc: "\<forall>a \<in> set (ancestors (cs ! i) p). code_block a = None"
    by auto
  from Cons.IH [OF cs(3) anc] cs x code_block_visit [OF x] show ?case
    by (simp add: visit_descend with_children_def)
qed

lemma topmost_code_block:
  "\<exists>n \<in> set (nodes x). code_block n \<noteq> None \<Longrightarrow>
   \<exists>p y. subtree x p = Some y \<and> code_block y \<noteq> None \<and>
         (\<forall>a \<in> set (ancestors x p). code_block a = None)"
proof (induction x rule: nodes.induct)
  case (1 ty tg pr v ch)
  let ?x = "Node ty tg pr v ch"
  show ?case
  proof (cases "code_block ?x")
    case (Some ce)
    then have "subtree ?x [] = Some ?x \<and> code_block ?x \<noteq> None \<and>
        (\<forall>a \<in> set (ancestors ?x []). code_block a = None)" by simp
    then show ?thesis by blast
  next
    case None
    with 1(2) obtain cs c where cs: "ch = Some cs" "c \<in> set cs"
      and n: "\<exists>n \<in> set (nodes c). code_block n \<noteq> None"
      by (auto split: option.splits)
    from 1(1) [OF cs n] obtain p y where
      p: "subtree c p = Some y" "code_block y \<noteq> None" "\<forall>a \<in> set (ancestors c p). code_block a = None"
      by blast
    from cs(2) obtain i where i: "i < length cs" "cs ! i = c"
      by (auto simp: in_set_conv_nth)
    with p cs None have "subtree ?x (i # p) = Some y \<and> code_block y \<noteq> None \<and>
        (\<forall>a \<in> set (ancestors ?x (i # p)). code_block a = None)"
      by simp
    then show ?thesis by blast
  qed
qed

lemma container_neq: "is_element x ''pre'' \<Longrightarrow> container y b \<noteq> x"
  by (auto simp: container_def element_def is_element_def)

text \<open>
  C3, amended. The pass matches every \<^verbatim>\<open>pre\<close> element with a \<^verbatim>\<open>code\<close> child that it
  reaches, also one that stands inside a container of an earlier run. A block that the
  first run wrapped is wrapped once more by the second: its position then holds a
  container whose first child is the container of the first run. A second run leaves the
  tree unchanged exactly when the first run changed nothing.
\<close>

theorem second_run_wraps_again:
  "(subtree tree p = Some x \<and> p \<noteq> [] \<and> is_element x ''pre'' \<and> codeElement x = Some ce \<and>
    (\<forall>a \<in> set (ancestors tree p). code_block a = None) \<longrightarrow>
      subtree (rehypeCopyButton (rehypeCopyButton tree)) p =
        Some (container (container x (copyButton (Some (concat (text_payloads ce)))))
                        (copyButton (Some (concat (text_payloads ce)))))) \<and>
   (rehypeCopyButton (rehypeCopyButton tree) = rehypeCopyButton tree \<longleftrightarrow>
      rehypeCopyButton tree = tree)"
proof -
  have twice: "subtree (rehypeCopyButton (rehypeCopyButton t)) q =
        Some (container (container y (copyButton (Some (concat (text_payloads c)))))
                        (copyButton (Some (concat (text_payloads c)))))"
    if at: "subtree t q = Some y" and ne: "q \<noteq> []" and cb: "code_block y = Some c"
      and anc: "\<forall>a \<in> set (ancestors t q). code_block a = None" for t q y c
  proof -
    let ?b = "copyButton (Some (concat (text_payloads c)))"
    from ne obtain i r where q: "q = i # r" by (cases q) auto
    with anc have t: "code_block t = None" by simp
    then have r1: "rehypeCopyButton t = snd (visit t)"
      by (simp add: rehypeCopyButton_def fst_visit)
    from subtree_visit [OF at anc] cb have at1: "subtree (snd (visit t)) q = Some (container y ?b)"
      by (simp add: visit_wrap code_block_text)
    have anc1: "\<forall>a \<in> set (ancestors (snd (visit t)) q). code_block a = None"
      using at anc by (rule ancestors_visit)
    from code_block_visit [OF t] have r2: "rehypeCopyButton (snd (visit t)) = snd (visit (snd (visit t)))"
      by (simp add: rehypeCopyButton_def fst_visit)
    from subtree_visit [OF at1 anc1] cb show ?thesis
      by (simp add: r1 r2 visit_container visit_copyButton visit_wrap code_block_text)
  qed
  have "rehypeCopyButton tree = tree"
    if same: "rehypeCopyButton (rehypeCopyButton tree) = rehypeCopyButton tree"
  proof (rule ccontr)
    assume changed: "rehypeCopyButton tree \<noteq> tree"
    then have t: "code_block tree = None" and v: "visit tree \<noteq> (tree, tree)"
      by (auto simp: rehypeCopyButton_def fst_visit split: if_splits)
    from v visit_identity [of tree] have "\<exists>n \<in> set (nodes tree). code_block n \<noteq> None"
      by blast
    from topmost_code_block [OF this] obtain q y c where
      q: "subtree tree q = Some y" "code_block y = Some c"
         "\<forall>a \<in> set (ancestors tree q). code_block a = None"
      by auto
    from q t have ne: "q \<noteq> []" by auto
    let ?b = "copyButton (Some (concat (text_payloads c)))"
    from ne obtain i r where "q = i # r" by (cases q) auto
    from t have r1: "rehypeCopyButton tree = snd (visit tree)"
      by (simp add: rehypeCopyButton_def fst_visit)
    from subtree_visit [OF q(1,3)] q(2) have "subtree (rehypeCopyButton tree) q = Some (container y ?b)"
      by (simp add: r1 visit_wrap code_block_text)
    moreover from twice [OF q(1) ne q(2,3)]
    have "subtree (rehypeCopyButton (rehypeCopyButton tree)) q = Some (container (container y ?b) ?b)" .
    ultimately have "container (container y ?b) ?b = container y ?b"
      using same by simp
    then have "container y ?b = y"
      by (simp add: container_def element_def)
    moreover from q(2) have "is_element y ''pre''"
      by (simp add: code_block_def split: if_splits)
    ultimately show False using container_neq by blast
  qed
  moreover have "rehypeCopyButton (rehypeCopyButton tree) = rehypeCopyButton tree"
    if "rehypeCopyButton tree = tree"
    using that by simp
  ultimately show ?thesis
    using twice [of tree p x ce] by (auto simp: code_block_def)
qed

theorem second_run_wraps_again_witness:
  "subtree single_block [0] = Some (elem ''pre'' [elem ''code'' [text_node ''a'']]) \<and>
   subtree (rehypeCopyButton single_block) [0] =
     Some (container (elem ''pre'' [elem ''code'' [text_node ''a'']]) (copyButton (Some ''a''))) \<and>
   subtree (rehypeCopyButton (rehypeCopyButton single_block)) [0] =
     Some (container
             (container (elem ''pre'' [elem ''code'' [text_node ''a'']]) (copyButton (Some ''a'')))
             (copyButton (Some ''a''))) \<and>
   rehypeCopyButton single_block \<noteq> single_block \<and>
   rehypeCopyButton (rehypeCopyButton single_block) \<noteq> rehypeCopyButton single_block"
proof -
  let ?pre = "elem ''pre'' [elem ''code'' [text_node ''a'']]"
  have at: "subtree single_block [0] = Some ?pre"
    by (simp add: single_block_def example_defs)
  have e: "is_element ?pre ''pre''" and c: "codeElement ?pre = Some (elem ''code'' [text_node ''a''])"
    by (simp_all add: example_defs)
  have anc: "\<forall>a \<in> set (ancestors single_block [0]). code_block a = None"
    by (simp add: single_block_def example_defs)
  have t: "text_payloads (elem ''code'' [text_node ''a'']) = [''a'']"
    by (simp add: example_defs)
  have one: "rehypeCopyButton single_block = root [container ?pre (copyButton (Some ''a''))]"
    by (simp add: single_block_def rehypeCopyButton_def visit.simps Let_def example_defs join_def)
  then have ne: "rehypeCopyButton single_block \<noteq> single_block"
    by (simp add: single_block_def example_defs)
  from one have at1: "subtree (rehypeCopyButton single_block) [0] =
      Some (container ?pre (copyButton (Some ''a'')))"
    by (simp add: root_def)
  from second_run_wraps_again [of single_block "[0]" ?pre "elem ''code'' [text_node ''a'']"]
    at e c anc t ne at1
  show ?thesis by simp
qed

text \<open>
  C3, as stated, fails on \<^verbatim>\<open>root[pre[code["a"]]]\<close>: the second run changes the output of
  the first, and the block ends up inside two containers.
\<close>

theorem second_run_unchanged_counterexample:
  "rehypeCopyButton single_block =
     root [container (elem ''pre'' [elem ''code'' [text_node ''a'']]) (copyButton (Some ''a''))] \<and>
   rehypeCopyButton (rehypeCopyButton single_block) =
     root [container
             (container (elem ''pre'' [elem ''code'' [text_node ''a'']]) (copyButton (Some ''a'')))
             (copyButton (Some ''a''))] \<and>
   rehypeCopyButton (rehypeCopyButton single_block) \<noteq> rehypeCopyButton single_block"
proof -
  let ?pre = "elem ''pre'' [elem ''code'' [text_node ''a'']]"
  have pre: "visit ?pre = (?pre, container ?pre (copyButton (Some ''a'')))"
    by (simp add: visit.simps Let_def example_defs join_def)
  have one: "visit single_block =
      (root [container ?pre (copyButton (Some ''a''))], root [container ?pre (copyButton (Some ''a''))])"
    unfolding single_block_def root_def
    by (simp add: visit.simps [of "''root''"] Let_def pre code_block_def is_element_def)
  have two: "visit (root [container ?pre (copyButton (Some ''a''))]) =
      (root [container (container ?pre (copyButton (Some ''a''))) (copyButton (Some ''a''))],
       root [container (container ?pre (copyButton (Some ''a''))) (copyButton (Some ''a''))])"
    unfolding root_def
    by (simp add: visit.simps [of "''root''"] Let_def visit_container visit_copyButton pre
        code_block_def is_element_def)
  have "container (container ?pre (copyButton (Some ''a''))) (copyButton (Some ''a'')) \<noteq>
      container ?pre (copyButton (Some ''a''))"
    by (simp add: container_def element_def elem_def)
  with one two show ?thesis
    by (simp add: rehypeCopyButton_def root_def)
qed

section \<open>Properties of the calls\<close>

declare visit_traced.simps [simp del]

lemma visit_traced_result:
  "fst (visit_traced x) = visit x"
  "fst (visit_traced_children i cs) = map (\<lambda>c. snd (visit c)) cs"
proof (induction x and i cs rule: visit_traced_visit_traced_children.induct)
  case (1 ty tg pr v ch)
  show ?case
  proof (cases "code_block (Node ty tg pr v ch)")
    case (Some ce)
    then show ?thesis by (simp add: visit_traced.simps visit.simps Let_def)
  next
    case None
    show ?thesis
    proof (cases ch)
      case N: None
      with None show ?thesis by (simp add: visit_traced.simps visit.simps Let_def)
    next
      case (Some cs)
      with None 1 [OF refl None Some] show ?thesis
        by (cases "visit_traced_children 0 cs") (simp add: visit_traced.simps visit.simps Let_def)
    qed
  qed
next
  case (2 i)
  show ?case by simp
next
  case (3 i c cs)
  obtain r l where c: "visit_traced c = (r, l)" by (cases "visit_traced c")
  obtain rs ls where cs: "visit_traced_children (Suc i) cs = (rs, ls)"
    by (cases "visit_traced_children (Suc i) cs")
  from 3(1) c have "r = visit c" by simp
  moreover from 3(2) [OF refl c [symmetric]] cs have "rs = map (\<lambda>c. snd (visit c)) cs" by simp
  ultimately show ?case using c cs by simp
qed

lemma calls_wrap: "code_block x \<noteq> None \<Longrightarrow> calls x = [([], x)]"
  by (cases x) (auto simp: calls_def visit_traced.simps Let_def)

lemma calls_leaf: "code_block x = None \<Longrightarrow> children x = None \<Longrightarrow> calls x = [([], x)]"
  by (cases x) (auto simp: calls_def visit_traced.simps Let_def)

lemma calls_descend:
  "code_block x = None \<Longrightarrow> children x = Some cs \<Longrightarrow> calls x = ([], x) # calls_children 0 cs"
  by (cases x) (auto simp: calls_def calls_children_def visit_traced.simps Let_def split: prod.splits)

lemma calls_children_Nil: "calls_children i [] = []"
  by (simp add: calls_children_def)

lemma calls_children_Cons:
  "calls_children i (c # cs) = map (\<lambda>(p, x). (i # p, x)) (calls c) @ calls_children (Suc i) cs"
  by (simp add: calls_children_def calls_def Let_def split: prod.splits)

lemma calls_children_set:
  "(q, y) \<in> set (calls_children i cs) \<longleftrightarrow>
   (\<exists>j r. j < length cs \<and> q = (i + j) # r \<and> (r, y) \<in> set (calls (cs ! j)))"
proof (induction cs arbitrary: i)
  case Nil
  show ?case by (simp add: calls_children_Nil)
next
  case (Cons c cs)
  show ?case
  proof
    assume "(q, y) \<in> set (calls_children i (c # cs))"
    then consider "\<exists>r. q = i # r \<and> (r, y) \<in> set (calls c)"
      | "(q, y) \<in> set (calls_children (Suc i) cs)"
      by (auto simp: calls_children_Cons)
    then show "\<exists>j r. j < length (c # cs) \<and> q = (i + j) # r \<and> (r, y) \<in> set (calls ((c # cs) ! j))"
    proof cases
      case 1
      then obtain r where "q = (i + 0) # r" "(r, y) \<in> set (calls ((c # cs) ! 0))" by auto
      then show ?thesis by blast
    next
      case 2
      with Cons.IH [of "Suc i"] obtain j r where
        "j < length cs" "q = (Suc i + j) # r" "(r, y) \<in> set (calls (cs ! j))" by blast
      then have "Suc j < length (c # cs) \<and> q = (i + Suc j) # r \<and> (r, y) \<in> set (calls ((c # cs) ! Suc j))"
        by simp
      then show ?thesis by blast
    qed
  next
    assume "\<exists>j r. j < length (c # cs) \<and> q = (i + j) # r \<and> (r, y) \<in> set (calls ((c # cs) ! j))"
    then obtain j r where j: "j < length (c # cs)" "q = (i + j) # r" "(r, y) \<in> set (calls ((c # cs) ! j))"
      by blast
    show "(q, y) \<in> set (calls_children i (c # cs))"
    proof (cases j)
      case 0
      with j show ?thesis by (auto simp: calls_children_Cons)
    next
      case (Suc k)
      with j have "k < length cs \<and> q = (Suc i + k) # r \<and> (r, y) \<in> set (calls (cs ! k))" by simp
      with Cons.IH [of "Suc i"] show ?thesis by (auto simp: calls_children_Cons)
    qed
  qed
qed

lemma calls_set:
  "(q, y) \<in> set (calls x) \<longleftrightarrow>
   subtree x q = Some y \<and> (\<forall>a \<in> set (ancestors x q). code_block a = None)"
proof (induction q arbitrary: x)
  case Nil
  show ?case
    by (cases "code_block x"; cases "children x")
      (auto simp: calls_wrap calls_leaf calls_descend calls_children_set)
next
  case (Cons i q)
  show ?case
  proof (cases "code_block x")
    case (Some ce)
    then show ?thesis by (simp add: calls_wrap)
  next
    case None
    show ?thesis
    proof (cases "children x")
      case N: None
      with None show ?thesis by (simp add: calls_leaf)
    next
      case (Some cs)
      have "(i # q, y) \<in> set (calls x) \<longleftrightarrow> i < length cs \<and> (q, y) \<in> set (calls (cs ! i))"
        using None Some by (auto simp: calls_descend calls_children_set)
      with Cons.IH [of "cs ! i"] None Some show ?thesis by auto
    qed
  qed
qed

lemma calls_children_fst:
  "p \<in> fst ` set (calls_children i cs) \<Longrightarrow> \<exists>j r. p = j # r \<and> i \<le> j"
  by (force simp: calls_children_set)

lemma calls_children_distinct:
  "(\<And>c. c \<in> set cs \<Longrightarrow> distinct (map fst (calls c))) \<Longrightarrow>
   distinct (map fst (calls_children i cs))"
proof (induction cs arbitrary: i)
  case Nil
  show ?case by (simp add: calls_children_Nil)
next
  case (Cons c cs)
  have m: "map fst (map (\<lambda>(p, x). (i # p, x)) (calls c)) = map ((#) i) (map fst (calls c))"
    by (simp add: case_prod_beta comp_def)
  have d1: "distinct (map fst (map (\<lambda>(p, x). (i # p, x)) (calls c)))"
    unfolding m using Cons.prems [of c] by (auto simp: distinct_map inj_on_def)
  have d2: "distinct (map fst (calls_children (Suc i) cs))"
    using Cons.prems by (intro Cons.IH) simp
  have "set (map fst (map (\<lambda>(p, x). (i # p, x)) (calls c))) \<inter>
      set (map fst (calls_children (Suc i) cs)) = {}"
  proof (rule ccontr)
    assume "\<not> ?thesis"
    then obtain p where p1: "p \<in> set (map ((#) i) (map fst (calls c)))"
      and p2: "p \<in> fst ` set (calls_children (Suc i) cs)"
      unfolding m by auto
    from p1 obtain r where "p = i # r" by auto
    with calls_children_fst [OF p2] show False by auto
  qed
  with d1 d2 show ?case
    by (simp add: calls_children_Cons)
qed

lemma calls_distinct: "distinct (map fst (calls x))"
proof (induction x rule: nodes.induct)
  case (1 ty tg pr v ch)
  let ?x = "Node ty tg pr v ch"
  show ?case
  proof (cases "code_block ?x")
    case (Some ce)
    then show ?thesis by (simp add: calls_wrap)
  next
    case None
    show ?thesis
    proof (cases ch)
      case N: None
      with None show ?thesis by (simp add: calls_leaf)
    next
      case (Some cs)
      from 1 [OF Some] have "distinct (map fst (calls_children 0 cs))"
        by (intro calls_children_distinct) simp
      moreover have "[] \<notin> fst ` set (calls_children 0 cs)"
        using calls_children_fst [of "[]" 0 cs] by auto
      ultimately show ?thesis
        using None Some by (simp add: calls_descend)
    qed
  qed
qed

lemma calls_children_length:
  "(\<And>c. c \<in> set cs \<Longrightarrow> length (calls c) \<le> length (nodes c)) \<Longrightarrow>
   length (calls_children i cs) \<le> length (concat (map nodes cs))"
proof (induction cs arbitrary: i)
  case Nil
  show ?case by (simp add: calls_children_Nil)
next
  case (Cons c cs)
  have "length (calls_children (Suc i) cs) \<le> length (concat (map nodes cs))"
    using Cons.prems by (intro Cons.IH) simp
  with Cons.prems [of c] show ?case
    by (simp add: calls_children_Cons)
qed

lemma calls_length: "length (calls x) \<le> length (nodes x)"
proof (induction x rule: nodes.induct)
  case (1 ty tg pr v ch)
  let ?x = "Node ty tg pr v ch"
  show ?case
  proof (cases "code_block ?x")
    case (Some ce)
    then show ?thesis by (simp add: calls_wrap)
  next
    case None
    show ?thesis
    proof (cases ch)
      case N: None
      with None show ?thesis by (simp add: calls_leaf)
    next
      case (Some cs)
      from 1 [OF Some] have "length (calls_children 0 cs) \<le> length (concat (map nodes cs))"
        by (intro calls_children_length) simp
      with None Some show ?thesis by (simp add: calls_descend)
    qed
  qed
qed

text \<open>
  C7, amended. The traversal ends: one run makes at most as many calls of \<^verbatim>\<open>visit\<close> as
  the input tree has nodes. No position is visited twice. The calls are exactly the
  calls on the nodes of the input tree that have no ancestor that is a \<^verbatim>\<open>pre\<close> element
  with a \<^verbatim>\<open>code\<close> child, each on the input node at its position; so a container made in
  the run and its children are never visited, and neither is anything below a block
  that was wrapped.
\<close>

theorem visit_calls:
  "fst (visit_traced tree) = visit tree \<and>
   length (snd (visit_traced tree)) \<le> length (nodes tree) \<and>
   distinct (map fst (snd (visit_traced tree))) \<and>
   (\<forall>p x. (p, x) \<in> set (snd (visit_traced tree)) \<longleftrightarrow>
      subtree tree p = Some x \<and> (\<forall>a \<in> set (ancestors tree p). code_block a = None))"
  using visit_traced_result(1) [of tree] calls_length [of tree] calls_distinct [of tree]
    calls_set [of _ _ tree]
  by (simp add: calls_def)

theorem visit_calls_witness:
  "snd (visit_traced single_block) =
     [([], single_block), ([0], elem ''pre'' [elem ''code'' [text_node ''a'']])] \<and>
   length (snd (visit_traced single_block)) \<le> length (nodes single_block) \<and>
   distinct (map fst (snd (visit_traced single_block))) \<and>
   ([0], elem ''pre'' [elem ''code'' [text_node ''a'']]) \<in> set (snd (visit_traced single_block))"
proof -
  have s: "subtree single_block [0] = Some (elem ''pre'' [elem ''code'' [text_node ''a'']])"
    by (simp add: single_block_def example_defs)
  have a: "\<forall>a \<in> set (ancestors single_block [0]). code_block a = None"
    by (simp add: single_block_def example_defs)
  have e: "snd (visit_traced single_block) =
     [([], single_block), ([0], elem ''pre'' [elem ''code'' [text_node ''a'']])]"
    by (simp add: single_block_def visit_traced.simps Let_def example_defs)
  from visit_calls [of single_block] s a e show ?thesis
    by blast
qed

text \<open>
  C7, as stated, fails on \<^verbatim>\<open>root[pre[code["a"]]]\<close>: the tree has four nodes and the run
  visits two of them, the root and the block. The \<^verbatim>\<open>code\<close> element and its text are
  never passed to \<^verbatim>\<open>visit\<close>.
\<close>

theorem every_node_visited_counterexample:
  "subtree single_block [0, 0] = Some (elem ''code'' [text_node ''a'']) \<and>
   subtree single_block [0, 0, 0] = Some (text_node ''a'') \<and>
   length (nodes single_block) = 4 \<and>
   snd (visit_traced single_block) =
     [([], single_block), ([0], elem ''pre'' [elem ''code'' [text_node ''a'']])]"
  by (simp add: single_block_def visit_traced.simps Let_def example_defs)

section \<open>A preformatted block without a code child\<close>

lemma ancestors_append:
  "subtree t p = Some x \<Longrightarrow> ancestors t (p @ q) = ancestors t p @ ancestors x q"
  by (induction p arbitrary: t) (auto split: option.splits if_splits)

text \<open>
  C6, amended. Take a \<^verbatim>\<open>pre\<close> element with no \<^verbatim>\<open>code\<close> element among its children that
  has no ancestor that is a \<^verbatim>\<open>pre\<close> element with a \<^verbatim>\<open>code\<close> child (the root included).
  \<^verbatim>\<open>visit\<close> is called on it and makes no container and no copy control for it: after
  the run its position holds the node itself, with type, tag, properties and value as
  they were and with every child replaced by what \<^verbatim>\<open>visit\<close> returns for that child.
  The traversal goes on into its children: \<^verbatim>\<open>visit\<close> is called on each of them, and
  what it returns for a child stands at the child's position.
\<close>

theorem pre_without_code_descended:
  assumes "subtree tree p = Some x" and "is_element x ''pre''" and "codeElement x = None"
    and "\<forall>a \<in> set (ancestors tree p). code_block a = None"
  shows "(p, x) \<in> set (snd (visit_traced tree)) \<and>
         subtree (rehypeCopyButton tree) p =
           Some (case children x of
                   None \<Rightarrow> x
                 | Some cs \<Rightarrow> with_children x (map (\<lambda>c. snd (visit c)) cs)) \<and>
         (\<forall>cs i. children x = Some cs \<and> i < length cs \<longrightarrow>
            (p @ [i], cs ! i) \<in> set (snd (visit_traced tree)) \<and>
            subtree (rehypeCopyButton tree) (p @ [i]) = Some (snd (visit (cs ! i))))"
proof -
  from assms(2,3) have cb: "code_block x = None" by (simp add: code_block_def)
  have root: "code_block tree = None"
  proof (cases p)
    case Nil
    with assms(1) cb show ?thesis by simp
  next
    case (Cons i q)
    with assms(4) show ?thesis by simp
  qed
  then have r: "rehypeCopyButton tree = snd (visit tree)"
    by (simp add: rehypeCopyButton_def fst_visit)
  have called: "(p, x) \<in> set (snd (visit_traced tree))"
    using assms(1,4) calls_set [of p x tree] by (simp add: calls_def)
  have "subtree (rehypeCopyButton tree) p = Some (snd (visit x))"
    unfolding r using assms(1,4) by (rule subtree_visit)
  then have at: "subtree (rehypeCopyButton tree) p =
      Some (case children x of
              None \<Rightarrow> x
            | Some cs \<Rightarrow> with_children x (map (\<lambda>c. snd (visit c)) cs))"
    using cb by (cases "children x") (simp_all add: visit_leaf visit_descend)
  have below: "(p @ [i], cs ! i) \<in> set (snd (visit_traced tree)) \<and>
      subtree (rehypeCopyButton tree) (p @ [i]) = Some (snd (visit (cs ! i)))"
    if cs: "children x = Some cs" and i: "i < length cs" for cs i
  proof -
    from assms(1) cs i have s: "subtree tree (p @ [i]) = Some (cs ! i)"
      by (simp add: subtree_append)
    from assms(1) cs i have "ancestors tree (p @ [i]) = ancestors tree p @ [x]"
      by (simp add: ancestors_append)
    with assms(4) cb have a: "\<forall>a \<in> set (ancestors tree (p @ [i])). code_block a = None"
      by simp
    from s a calls_set [of "p @ [i]" "cs ! i" tree]
    have "(p @ [i], cs ! i) \<in> set (snd (visit_traced tree))"
      by (simp add: calls_def)
    moreover from subtree_visit [OF s a]
    have "subtree (rehypeCopyButton tree) (p @ [i]) = Some (snd (visit (cs ! i)))"
      by (simp add: r)
    ultimately show ?thesis ..
  qed
  from called at below show ?thesis by blast
qed

theorem pre_without_code_descended_witness:
  "subtree (root [elem ''pre'' [text_node ''plain'', elem ''pre'' [elem ''code'' []]]]) [0] =
     Some (elem ''pre'' [text_node ''plain'', elem ''pre'' [elem ''code'' []]]) \<and>
   ([0], elem ''pre'' [text_node ''plain'', elem ''pre'' [elem ''code'' []]]) \<in>
     set (snd (visit_traced (root [elem ''pre'' [text_node ''plain'', elem ''pre'' [elem ''code'' []]]]))) \<and>
   subtree (rehypeCopyButton (root [elem ''pre'' [text_node ''plain'', elem ''pre'' [elem ''code'' []]]])) [0] =
     Some (elem ''pre'' [text_node ''plain'', container (elem ''pre'' [elem ''code'' []]) (copyButton (Some ''''))]) \<and>
   ([0, 1], elem ''pre'' [elem ''code'' []]) \<in>
     set (snd (visit_traced (root [elem ''pre'' [text_node ''plain'', elem ''pre'' [elem ''code'' []]]]))) \<and>
   subtree (rehypeCopyButton (root [elem ''pre'' [text_node ''plain'', elem ''pre'' [elem ''code'' []]]])) [0, 1] =
     Some (container (elem ''pre'' [elem ''code'' []]) (copyButton (Some '''')))"
proof -
  let ?x = "elem ''pre'' [text_node ''plain'', elem ''pre'' [elem ''code'' []]]"
  have at: "subtree (root [?x]) [0] = Some ?x"
    by (simp add: root_def)
  have h1: "is_element ?x ''pre''" and h2: "codeElement ?x = None"
    by (simp_all add: example_defs)
  have anc: "\<forall>a \<in> set (ancestors (root [?x]) [0]). code_block a = None"
    by (simp add: example_defs)
  have cs: "children ?x = Some [text_node ''plain'', elem ''pre'' [elem ''code'' []]]"
    by (simp add: elem_def)
  have v0: "snd (visit (text_node ''plain'')) = text_node ''plain''"
    by (simp add: visit.simps Let_def example_defs)
  have v1: "snd (visit (elem ''pre'' [elem ''code'' []])) =
      container (elem ''pre'' [elem ''code'' []]) (copyButton (Some ''''))"
    by (simp add: visit.simps Let_def example_defs join_def)
  have w: "with_children ?x [text_node ''plain'', container (elem ''pre'' [elem ''code'' []]) (copyButton (Some ''''))] =
      elem ''pre'' [text_node ''plain'', container (elem ''pre'' [elem ''code'' []]) (copyButton (Some ''''))]"
    by (simp add: with_children_def elem_def)
  note t = pre_without_code_descended [OF at h1 h2 anc]
  from t have called: "([0], ?x) \<in> set (snd (visit_traced (root [?x])))"
    by blast
  from t cs w v0 v1 have out: "subtree (rehypeCopyButton (root [?x])) [0] =
      Some (elem ''pre'' [text_node ''plain'', container (elem ''pre'' [elem ''code'' []]) (copyButton (Some ''''))])"
    by simp
  from t have "children ?x = Some [text_node ''plain'', elem ''pre'' [elem ''code'' []]] \<and>
      1 < length [text_node ''plain'', elem ''pre'' [elem ''code'' []]] \<longrightarrow>
      ([0] @ [1], [text_node ''plain'', elem ''pre'' [elem ''code'' []]] ! 1) \<in>
        set (snd (visit_traced (root [?x]))) \<and>
      subtree (rehypeCopyButton (root [?x])) ([0] @ [1]) =
        Some (snd (visit ([text_node ''plain'', elem ''pre'' [elem ''code'' []]] ! 1)))"
    by blast
  with cs v1 have below: "([0, 1], elem ''pre'' [elem ''code'' []]) \<in> set (snd (visit_traced (root [?x]))) \<and>
      subtree (rehypeCopyButton (root [?x])) [0, 1] =
        Some (container (elem ''pre'' [elem ''code'' []]) (copyButton (Some '''')))"
    by simp
  from at called out below show ?thesis by blast
qed

text \<open>
  C6, as stated, fails on \<^verbatim>\<open>root[pre[code["a"], pre["plain", pre[code["b"]]]]]\<close>. The
  \<^verbatim>\<open>pre\<close> at position 0, 1 has no \<^verbatim>\<open>code\<close> child, and the traversal does not go on into
  its children: \<^verbatim>\<open>visit\<close> returns at the block around it, is called on the root and on
  that block only, and the block below the \<^verbatim>\<open>pre\<close> stays unwrapped.
\<close>

theorem pre_without_code_counterexample:
  "subtree buried_pre [0, 1] =
     Some (elem ''pre'' [text_node ''plain'', elem ''pre'' [elem ''code'' [text_node ''b'']]]) \<and>
   is_element (elem ''pre'' [text_node ''plain'', elem ''pre'' [elem ''code'' [text_node ''b'']]]) ''pre'' \<and>
   codeElement (elem ''pre'' [text_node ''plain'', elem ''pre'' [elem ''code'' [text_node ''b'']]]) = None \<and>
   snd (visit_traced buried_pre) =
     [([], buried_pre),
      ([0], elem ''pre''
              [elem ''code'' [text_node ''a''],
               elem ''pre'' [text_node ''plain'', elem ''pre'' [elem ''code'' [text_node ''b'']]]])] \<and>
   rehypeCopyButton buried_pre =
     root [container
             (elem ''pre''
                [elem ''code'' [text_node ''a''],
                 elem ''pre'' [text_node ''plain'', elem ''pre'' [elem ''code'' [text_node ''b'']]]])
             (copyButton (Some ''a''))] \<and>
   subtree (rehypeCopyButton buried_pre) [0, 0, 1, 1] =
     Some (elem ''pre'' [elem ''code'' [text_node ''b'']])"
  by (simp add: buried_pre_def rehypeCopyButton_def visit.simps visit_traced.simps Let_def
      example_defs join_def)

section \<open>Properties of the plugin on arbitrary values\<close>

declare visit_js.simps [simp del] extractTextFromNode_js.simps [simp del]

lemma sequence_Inl:
  "sequence rs = Inl e \<longleftrightarrow> (\<exists>r \<in> set rs. \<exists>e'. r = Inl e')" for e :: error
proof (induction rs)
  case Nil
  show ?case by simp
next
  case (Cons r rs)
  show ?case
  proof (cases r)
    case (Inl e')
    then show ?thesis by (cases e; cases e') auto
  next
    case (Inr x)
    with Cons show ?thesis by (auto split: sum.splits)
  qed
qed

lemma sequence_map_Inr: "sequence (map (\<lambda>x. Inr (f x)) xs) = Inr (map f xs)"
  by (induction xs) simp_all

lemma visit_js_nullish: "visit_js Null = Inl TypeError" "visit_js Undefined = Inl TypeError"
  by (simp_all add: visit_js.simps is_element_js_def)

lemma visit_js_no_children:
  assumes "is_element_js x ''pre'' = Inr False" and "get x ''children'' = Inr ch" and "\<not> truthy ch"
  shows "visit_js x = Inr (x, x)"
  using assms by (simp add: visit_js.simps [of x])

lemma visit_js_children:
  assumes "is_element_js x ''pre'' = Inr False" and "get x ''children'' = Inr (Arr cs)"
  shows "visit_js x =
           (case sequence (map visit_js cs) of
              Inl e \<Rightarrow> Inl e
            | Inr rs \<Rightarrow> Inr (set_field x ''children'' (Arr (map snd rs)),
                            set_field x ''children'' (Arr (map snd rs))))"
  using assms by (simp add: visit_js.simps [of x] Let_def split: sum.splits)

lemma visit_js_child_error:
  assumes "is_element_js x ''pre'' = Inr False" and "get x ''children'' = Inr (Arr cs)"
    and "c \<in> set cs" and "visit_js c = Inl e"
  shows "visit_js x = Inl TypeError"
proof -
  from assms(3,4) have "\<exists>r \<in> set (map visit_js cs). \<exists>e'. r = Inl e'" by force
  then have "sequence (map visit_js cs) = Inl TypeError"
    by (simp only: sequence_Inl)
  with assms(1,2) show ?thesis by (simp add: visit_js_children)
qed

lemma visit_js_abort:
  "subtree_js x p = Some v \<Longrightarrow> visit_js v = Inl e \<Longrightarrow>
   \<forall>a \<in> set (ancestors_js x p). is_element_js a ''pre'' = Inr False \<Longrightarrow>
   visit_js x = Inl TypeError"
proof (induction p arbitrary: x)
  case Nil
  then show ?case by (cases e) simp
next
  case (Cons i p)
  from Cons.prems(1) obtain cs where
    cs: "get x ''children'' = Inr (Arr cs)" "i < length cs" "subtree_js (cs ! i) p = Some v"
    by (auto split: sum.splits jsval.splits if_splits)
  from Cons.prems(3) cs have x: "is_element_js x ''pre'' = Inr False"
    and anc: "\<forall>a \<in> set (ancestors_js (cs ! i) p). is_element_js a ''pre'' = Inr False"
    by auto
  from Cons.IH [OF cs(3) Cons.prems(2) anc] have "visit_js (cs ! i) = Inl TypeError" .
  with x cs(1) show ?case
    using cs(2) by (intro visit_js_child_error [of x cs "cs ! i"]) auto
qed

text \<open>
  On the objects that stand for nodes, the plugin on arbitrary values throws nothing and
  does what \<open>visit\<close> does.
\<close>

declare embed.simps [simp del]

lemma get_embed:
  "get (embed x) ''type'' = Inr (Str (type x))"
  "get (embed x) ''tagName'' = Inr (embed_text (tagName x))"
  "get (embed x) ''value'' = Inr (embed_text (node_value x))"
  "get (embed x) ''children'' =
     Inr (case children x of None \<Rightarrow> Undefined | Some cs \<Rightarrow> Arr (map embed cs))"
  by (cases x; simp add: embed.simps field_def embed_text_def split: option.splits)+

lemma is_element_js_embed: "is_element_js (embed x) tag = Inr (is_element x tag)"
  by (auto simp: is_element_js_def is_element_def get_embed embed_text_def split: option.splits)

lemma find_js_embed:
  "find_js (\<lambda>child. is_element_js child tag) (map embed cs) =
   Inr (embed_node (find (\<lambda>child. is_element child tag) cs))"
  by (induction cs) (simp_all add: is_element_js_embed embed_node_def)

lemma codeElement_js_embed: "codeElement_js (embed x) = Inr (embed_node (codeElement x))"
  by (simp add: codeElement_js_def codeElement_def get_embed find_js_embed embed_node_def
      split: option.splits)

lemma truthy_embed: "truthy (embed x)"
  by (cases x) (simp add: embed.simps)

lemma intercalate_empty: "intercalate [] ss = concat ss"
  by (induction "[] :: string" ss rule: intercalate.induct) simp_all

lemma join_js_embed: "join_js [] (map embed_text ts) = Inr (join ts)"
proof -
  have "map (\<lambda>x. if x = Undefined \<or> x = Null then Inr [] else to_string x) (map embed_text ts) =
      map (\<lambda>t. Inr (case t of None \<Rightarrow> [] | Some s \<Rightarrow> s)) ts"
    by (simp add: embed_text_def split: option.splits)
  then show ?thesis
    by (simp add: join_js_def join_def sequence_map_Inr intercalate_empty del: map_map)
qed

lemma extractTextFromNode_js_unfold:
  "extractTextFromNode_js (embed x) =
     (if type x = ''text'' then Inr (embed_text (node_value x))
      else case children x of
        None \<Rightarrow> Inr (Str [])
      | Some cs \<Rightarrow>
          (case sequence (map extractTextFromNode_js (map embed cs)) of
             Inl e \<Rightarrow> Inl e
           | Inr vs \<Rightarrow> (case join_js [] vs of Inl e \<Rightarrow> Inl e | Inr s \<Rightarrow> Inr (Str s))))"
  by (subst extractTextFromNode_js.simps) (simp add: get_embed split: option.splits)

lemma extractTextFromNode_js_embed:
  "extractTextFromNode_js (embed x) = Inr (embed_text (extractTextFromNode x))"
proof (induction x rule: extractTextFromNode.induct)
  case (1 ty tg pr v ch)
  let ?x = "Node ty tg pr v ch"
  show ?case
  proof (cases "ty = ''text''")
    case True
    then show ?thesis
      by (simp add: extractTextFromNode_js_unfold)
  next
    case False
    show ?thesis
    proof (cases ch)
      case None
      with False show ?thesis
        by (simp add: extractTextFromNode_js_unfold embed_text_def)
    next
      case (Some cs)
      with False 1 have "map extractTextFromNode_js (map embed cs) =
          map (\<lambda>c. Inr (embed_text (extractTextFromNode c))) cs"
        by simp
      then have "sequence (map extractTextFromNode_js (map embed cs)) =
          Inr (map embed_text (map extractTextFromNode cs))"
        by (simp add: sequence_map_Inr del: map_map) (simp add: comp_def)
      with False Some show ?thesis
        by (simp add: extractTextFromNode_js_unfold join_js_embed embed_text_def del: map_map)
    qed
  qed
qed

lemma embed_element:
  "embed (element tag props cs) =
   element_js tag (map (\<lambda>(k, p). (k, embed_property p)) props) (map embed cs)"
  "embed (leaf_element tag props) =
   leaf_element_js tag (map (\<lambda>(k, p). (k, embed_property p)) props)"
  by (simp_all add: embed.simps element_def element_js_def leaf_element_def leaf_element_js_def field_def)

lemma embed_copyButton: "embed (copyButton codeText) = copyButton_js (embed_text codeText)"
  by (simp add: copyButton_def copyButton_js_def embed_element copy_icon_def copy_icon_js_def
      check_icon_def check_icon_js_def svg_properties_def svg_properties_js_def embed_text_def
      split: option.splits)

lemma embed_container: "embed (container x b) = container_js (embed x) (embed b)"
  by (simp add: container_def container_js_def embed_element)

lemma set_field_embed:
  "children x = Some cs \<Longrightarrow>
   set_field (embed x) ''children'' (Arr (map embed ys)) = embed (with_children x ys)"
  by (cases x) (simp add: embed.simps with_children_def field_def split: option.splits)

lemma visit_js_unfold:
  "visit_js (embed x) =
     (case code_block x of
        Some ce \<Rightarrow>
          (case extractTextFromNode_js (embed ce) of
             Inl e \<Rightarrow> Inl e
           | Inr codeText \<Rightarrow> Inr (embed x, container_js (embed x) (copyButton_js codeText)))
      | None \<Rightarrow>
          (case children x of
             None \<Rightarrow> Inr (embed x, embed x)
           | Some cs \<Rightarrow>
               (case sequence (map visit_js (map embed cs)) of
                  Inl e \<Rightarrow> Inl e
                | Inr rs \<Rightarrow> Inr (set_field (embed x) ''children'' (Arr (map snd rs)),
                                set_field (embed x) ''children'' (Arr (map snd rs))))))"
  by (subst visit_js.simps)
    (auto simp: is_element_js_embed codeElement_js_embed code_block_def embed_node_def
      truthy_embed get_embed Let_def split: option.splits sum.splits)

lemma visit_js_embed:
  "visit_js (embed x) = Inr (embed (fst (visit x)), embed (snd (visit x)))"
proof (induction x rule: nodes.induct)
  case (1 ty tg pr v ch)
  let ?x = "Node ty tg pr v ch"
  show ?case
  proof (cases "code_block ?x")
    case (Some ce)
    then show ?thesis
      by (simp add: visit_js_unfold extractTextFromNode_js_embed visit_wrap embed_container
          embed_copyButton)
  next
    case None
    show ?thesis
    proof (cases ch)
      case N: None
      with None show ?thesis
        by (simp add: visit_js_unfold visit_leaf)
    next
      case (Some cs)
      with 1 have "map visit_js (map embed cs) =
          map (\<lambda>c. Inr (embed (fst (visit c)), embed (snd (visit c)))) cs"
        by simp
      then have "sequence (map visit_js (map embed cs)) =
          Inr (map (\<lambda>c. (embed (fst (visit c)), embed (snd (visit c)))) cs)"
        by (simp add: sequence_map_Inr del: map_map)
      moreover have "set_field (embed ?x) ''children'' (Arr (map embed (map (\<lambda>c. snd (visit c)) cs))) =
          embed (with_children ?x (map (\<lambda>c. snd (visit c)) cs))"
        using Some by (intro set_field_embed) simp
      moreover have "map snd (map (\<lambda>c. (embed (fst (visit c)), embed (snd (visit c)))) cs) =
          map embed (map (\<lambda>c. snd (visit c)) cs)"
        by simp
      ultimately show ?thesis
        using None Some
        by (simp add: visit_js_unfold visit_descend del: map_map)
    qed
  qed
qed

lemma rehypeCopyButton_js_embed:
  "rehypeCopyButton_js (embed tree) = Inr (embed (rehypeCopyButton tree))"
  by (simp add: rehypeCopyButton_js_def rehypeCopyButton_def visit_js_embed)

text \<open>
  C4, amended. The pass catches nothing. What it does with a value that is not an element
  or text node follows from the same tests as for any other value. A value that is not
  a \<^verbatim>\<open>pre\<close> element and has no \<^verbatim>\<open>children\<close> (a stray string, an object of unknown type
  or of no type) is returned as it is, and its siblings are transformed as usual. A value
  that is not a \<^verbatim>\<open>pre\<close> element and has an array of \<^verbatim>\<open>children\<close> is traversed, whatever
  its type: its children are replaced by what \<^verbatim>\<open>visit\<close> returns for them. An entry
  \<^verbatim>\<open>null\<close> or \<^verbatim>\<open>undefined\<close> in an array of children that the traversal reaches (no
  ancestor being a \<^verbatim>\<open>pre\<close> element) makes \<^verbatim>\<open>visit\<close> throw a \<^verbatim>\<open>TypeError\<close>, and that
  exception ends the whole run.
\<close>

theorem no_error_handling:
  "(subtree_js tree p = Some v \<and> (v = Null \<or> v = Undefined) \<and>
    (\<forall>a \<in> set (ancestors_js tree p). is_element_js a ''pre'' = Inr False) \<longrightarrow>
      rehypeCopyButton_js tree = Inl TypeError) \<and>
   (is_element_js x ''pre'' = Inr False \<and> get x ''children'' = Inr ch \<and> \<not> truthy ch \<longrightarrow>
      visit_js x = Inr (x, x)) \<and>
   (is_element_js x ''pre'' = Inr False \<and> get x ''children'' = Inr (Arr cs) \<longrightarrow>
      visit_js x =
        (case sequence (map visit_js cs) of
           Inl e \<Rightarrow> Inl e
         | Inr rs \<Rightarrow> Inr (set_field x ''children'' (Arr (map snd rs)),
                         set_field x ''children'' (Arr (map snd rs)))))"
proof (intro conjI impI)
  assume a: "subtree_js tree p = Some v \<and> (v = Null \<or> v = Undefined) \<and>
    (\<forall>a \<in> set (ancestors_js tree p). is_element_js a ''pre'' = Inr False)"
  then have "visit_js v = Inl TypeError"
    using visit_js_nullish by auto
  with a have "visit_js tree = Inl TypeError"
    by (intro visit_js_abort [of tree p v]) auto
  then show "rehypeCopyButton_js tree = Inl TypeError"
    by (simp add: rehypeCopyButton_js_def)
next
  assume "is_element_js x ''pre'' = Inr False \<and> get x ''children'' = Inr ch \<and> \<not> truthy ch"
  then show "visit_js x = Inr (x, x)"
    by (intro visit_js_no_children [of x ch]) auto
next
  assume "is_element_js x ''pre'' = Inr False \<and> get x ''children'' = Inr (Arr cs)"
  then show "visit_js x =
        (case sequence (map visit_js cs) of
           Inl e \<Rightarrow> Inl e
         | Inr rs \<Rightarrow> Inr (set_field x ''children'' (Arr (map snd rs)),
                         set_field x ''children'' (Arr (map snd rs))))"
    by (intro visit_js_children) auto
qed

theorem no_error_handling_witness:
  "rehypeCopyButton_js (root_js [root_js [text_js ''a'', Undefined]]) = Inl TypeError \<and>
   visit_js (Str ''stray'') = Inr (Str ''stray'', Str ''stray'') \<and>
   visit_js (Obj [(''kind'', Str ''unknown'')]) =
     Inr (Obj [(''kind'', Str ''unknown'')], Obj [(''kind'', Str ''unknown'')]) \<and>
   visit_js (custom_js [Str ''stray'', text_js ''a'']) =
     Inr (custom_js [Str ''stray'', text_js ''a''], custom_js [Str ''stray'', text_js ''a''])"
proof -
  let ?t = "root_js [root_js [text_js ''a'', Undefined]]"
  have a1: "subtree_js ?t [0, 1] = Some Undefined"
    by (simp add: root_js_def)
  have a2: "\<forall>a \<in> set (ancestors_js ?t [0, 1]). is_element_js a ''pre'' = Inr False"
    by (simp add: root_js_def is_element_js_def)
  have b1: "is_element_js (Str ''stray'') ''pre'' = Inr False"
    and b2: "get (Str ''stray'') ''children'' = Inr Undefined" and b3: "\<not> truthy Undefined"
    by (simp_all add: is_element_js_def)
  have c1: "is_element_js (Obj [(''kind'', Str ''unknown'')]) ''pre'' = Inr False"
    and c2: "get (Obj [(''kind'', Str ''unknown'')]) ''children'' = Inr Undefined"
    by (simp_all add: is_element_js_def)
  have t: "visit_js (text_js ''a'') = Inr (text_js ''a'', text_js ''a'')"
    by (simp add: visit_js.simps text_js_def is_element_js_def)
  let ?c = "custom_js [Str ''stray'', text_js ''a'']"
  have d1: "is_element_js ?c ''pre'' = Inr False"
    and d2: "get ?c ''children'' = Inr (Arr [Str ''stray'', text_js ''a''])"
    by (simp_all add: custom_js_def is_element_js_def)
  from no_error_handling [of ?t "[0, 1]" Undefined "Str ''stray''" Undefined "[]"] a1 a2 b1 b2 b3
  have r1: "rehypeCopyButton_js ?t = Inl TypeError"
    and r2: "visit_js (Str ''stray'') = Inr (Str ''stray'', Str ''stray'')"
    by simp_all
  from no_error_handling [of ?t "[0, 1]" Undefined "Obj [(''kind'', Str ''unknown'')]" Undefined "[]"]
    c1 c2 b3
  have r3: "visit_js (Obj [(''kind'', Str ''unknown'')]) =
     Inr (Obj [(''kind'', Str ''unknown'')], Obj [(''kind'', Str ''unknown'')])"
    by simp
  from no_error_handling [of ?t "[0, 1]" Undefined ?c "Arr [Str ''stray'', text_js ''a'']"
      "[Str ''stray'', text_js ''a'']"] d1 d2 r2 t
  have r4: "visit_js ?c = Inr (?c, ?c)"
    by (simp add: custom_js_def)
  from r1 r2 r3 r4 show ?thesis by simp
qed

text \<open>
  C4, as stated, fails on \<^verbatim>\<open>root[pre[code["a"]], null]\<close>: the run throws, and the block
  beside the \<^verbatim>\<open>null\<close> is not transformed. It fails too on a node of an unknown type
  with children: the node is not left unchanged, the block inside it is wrapped.
\<close>

lemma visit_js_block:
  "visit_js (elem_js ''pre'' [elem_js ''code'' [text_js ''a'']]) =
     Inr (elem_js ''pre'' [elem_js ''code'' [text_js ''a'']],
          container_js (elem_js ''pre'' [elem_js ''code'' [text_js ''a'']]) (copyButton_js (Str ''a'')))"
  by (simp add: visit_js.simps extractTextFromNode_js.simps js_defs)

theorem malformed_subtree_counterexample:
  "rehypeCopyButton_js (root_js [elem_js ''pre'' [elem_js ''code'' [text_js ''a'']], Null]) =
     Inl TypeError \<and>
   rehypeCopyButton_js (root_js [custom_js [elem_js ''pre'' [elem_js ''code'' [text_js ''a'']]]]) =
     Inr (root_js [custom_js
            [container_js (elem_js ''pre'' [elem_js ''code'' [text_js ''a'']]) (copyButton_js (Str ''a''))]])"
proof -
  let ?pre = "elem_js ''pre'' [elem_js ''code'' [text_js ''a'']]"
  let ?wrapped = "container_js ?pre (copyButton_js (Str ''a''))"
  have r1: "visit_js (root_js [?pre, Null]) = Inl TypeError"
    by (subst visit_js_children [of _ "[?pre, Null]"])
      (simp_all add: visit_js_block visit_js_nullish root_js_def is_element_js_def)
  have c: "visit_js (custom_js [?pre]) = Inr (custom_js [?wrapped], custom_js [?wrapped])"
    by (subst visit_js_children [of _ "[?pre]"])
      (simp_all add: visit_js_block custom_js_def is_element_js_def)
  have r2: "visit_js (root_js [custom_js [?pre]]) =
      Inr (root_js [custom_js [?wrapped]], root_js [custom_js [?wrapped]])"
    by (subst visit_js_children [of _ "[custom_js [?pre]]"])
      (simp_all add: c root_js_def is_element_js_def)
  from r1 r2 show ?thesis
    by (simp add: rehypeCopyButton_js_def)
qed

end
